theory Spec2Isabelle
  imports Complex_Main "HOL-Library.Multiset" "HOL-Library.Product_Lexorder"
begin

section \<open>Python string operations used by the plugin\<close>

text \<open>
  Strings are lists of characters. The functions below follow the behaviour of the
  Python \<^verbatim>\<open>str\<close> methods that \<^verbatim>\<open>main.py\<close> calls.
\<close>

definition startswith :: "string \<Rightarrow> string \<Rightarrow> bool" where
  "startswith s p = (take (length p) s = p)"

definition endswith :: "string \<Rightarrow> string \<Rightarrow> bool" where
  "endswith s suf = (length suf \<le> length s \<and> drop (length s - length suf) s = suf)"

text \<open>\<^verbatim>\<open>s.replace(old, new)\<close>: all non-overlapping occurrences, leftmost first.\<close>

fun str_replace :: "string \<Rightarrow> string \<Rightarrow> string \<Rightarrow> string" where
  "str_replace old new [] = (if old = [] then new else [])"
| "str_replace old new (c # cs) =
     (if old = [] then new @ c # str_replace old new cs
      else if take (length old) (c # cs) = old
        then new @ str_replace old new (drop (length old) (c # cs))
      else c # str_replace old new cs)"

text \<open>\<^verbatim>\<open>s.find(sub)\<close>: the lowest index of an occurrence, or \<open>-1\<close>.\<close>

fun str_find :: "string \<Rightarrow> string \<Rightarrow> int" where
  "str_find [] sub = (if sub = [] then 0 else - 1)"
| "str_find (c # cs) sub =
     (if take (length sub) (c # cs) = sub then 0
      else (let r = str_find cs sub in if r < 0 then - 1 else r + 1))"

text \<open>\<^verbatim>\<open>sub in s\<close>.\<close>

fun str_in :: "string \<Rightarrow> string \<Rightarrow> bool" where
  "str_in sub [] = (sub = [])"
| "str_in sub (c # cs) = (take (length sub) (c # cs) = sub \<or> str_in sub cs)"

text \<open>
  \<^verbatim>\<open>s.lower()\<close> follows the Unicode case mapping. The search takes it as its parameter
  \<open>lower\<close>, so that what is proved of the search holds for every lowering of strings.
  \<open>ascii_lower\<close> is \<^verbatim>\<open>s.lower()\<close> on ASCII text, for the examples.
\<close>

definition lower_char :: "char \<Rightarrow> char" where
  "lower_char c =
     (case map_of (zip ''ABCDEFGHIJKLMNOPQRSTUVWXYZ'' ''abcdefghijklmnopqrstuvwxyz'') c of
        Some l \<Rightarrow> l
      | None \<Rightarrow> c)"

definition ascii_lower :: "string \<Rightarrow> string" where
  "ascii_lower s = map lower_char s"

text \<open>\<^verbatim>\<open>s.split(sep)\<close> for a one-character separator: never the empty list.\<close>

fun split_on :: "char \<Rightarrow> string \<Rightarrow> string list" where
  "split_on sep [] = [[]]"
| "split_on sep (c # cs) =
     (if c = sep then [] # split_on sep cs
      else (case split_on sep cs of [] \<Rightarrow> [[c]] | l # ls \<Rightarrow> (c # l) # ls))"

text \<open>\<^verbatim>\<open>xs[:n]\<close> for an integer \<open>n\<close>: a negative \<open>n\<close> counts from the end.\<close>

definition slice_to :: "'a list \<Rightarrow> int \<Rightarrow> 'a list" where
  "slice_to xs n = (if 0 \<le> n then take (nat n) xs else take (nat (int (length xs) + n)) xs)"

section \<open>Date-format translation\<close>

text \<open>
  \<^verbatim>\<open>obsidian_to_python_format\<close>. The code for the token \<^verbatim>\<open>D\<close> depends on
  \<^verbatim>\<open>platform.system()\<close>, which is the parameter \<open>is_windows\<close>.
\<close>

definition format_mapping :: "bool \<Rightarrow> (string \<times> string) list" where
  "format_mapping is_windows =
     [(''YYYY'', ''%Y''),
      (''YY'', ''%y''),
      (''MMMM'', ''%B''),
      (''MMM'', ''%b''),
      (''MM'', ''%m''),
      (''DD'', ''%d''),
      (''D'', if is_windows then ''%#d'' else ''%-d''),
      (''dddd'', ''%A''),
      (''ddd'', ''%a''),
      (''ww'', ''%U''),
      (''w'', ''%W'')]"

definition obsidian_to_python_format :: "bool \<Rightarrow> string \<Rightarrow> string" where
  "obsidian_to_python_format is_windows obsidian_format =
     foldl (\<lambda>python_format (obsidian_code, python_code).
              str_replace obsidian_code python_code python_format)
       obsidian_format (format_mapping is_windows)"

text \<open>The letters that the tokens of the table are made of.\<close>

definition token_letters :: "char set" where
  "token_letters = {CHR ''Y'', CHR ''M'', CHR ''D'', CHR ''d'', CHR ''w''}"

section \<open>Paths\<close>

text \<open>
  Paths are strings, handled as \<^verbatim>\<open>posixpath\<close> does (the plugin's branch for a platform
  other than Windows): \<^verbatim>\<open>os.path.join\<close> of two parts, \<^verbatim>\<open>os.path.basename\<close>, and
  \<^verbatim>\<open>os.path.relpath\<close>. A path names the entry at its components, the parts between the
  slashes without the empty ones and \<^verbatim>\<open>.\<close>, so that \<^verbatim>\<open>/v/Daily\<close>, \<^verbatim>\<open>/v/Daily/\<close>
  and \<^verbatim>\<open>/v//Daily\<close> are the same entry; a relative path is taken from the root.
\<close>

definition path_join :: "string \<Rightarrow> string \<Rightarrow> string" where
  "path_join a b =
     (if startswith b ''/'' then b
      else if a = [] \<or> endswith a ''/'' then a @ b
      else a @ ''/'' @ b)"

definition basename :: "string \<Rightarrow> string" where
  "basename p = rev (takeWhile (\<lambda>c. c \<noteq> CHR ''/'') (rev p))"

definition path_components :: "string \<Rightarrow> string list" where
  "path_components p = filter (\<lambda>x. x \<noteq> [] \<and> x \<noteq> ''.'') (split_on (CHR ''/'') p)"

fun common_prefix_len :: "'a list \<Rightarrow> 'a list \<Rightarrow> nat" where
  "common_prefix_len (x # xs) (y # ys) = (if x = y then Suc (common_prefix_len xs ys) else 0)"
| "common_prefix_len _ _ = 0"

text \<open>
  \<^verbatim>\<open>os.path.normpath\<close> on the components: a \<^verbatim>\<open>..\<close> takes the component before it
  away, and stays at the root when there is none.
\<close>

definition norm_components :: "string \<Rightarrow> string list" where
  "norm_components p =
     foldl (\<lambda>acc c. if c = ''..'' then butlast acc else acc @ [c]) [] (path_components p)"

definition relpath :: "string \<Rightarrow> string \<Rightarrow> string" where
  "relpath p start =
     (let start_list = norm_components start;
          path_list = norm_components p;
          i = common_prefix_len start_list path_list;
          rel_list = replicate (length start_list - i) ''..'' @ drop i path_list
      in case rel_list of [] \<Rightarrow> ''.'' | r # rs \<Rightarrow> foldl path_join r rs)"

section \<open>The directory tree that discovery and search read\<close>

text \<open>
  A file carries its decoded text (\<open>None\<close> when opening or decoding it raises) and its
  modification time in seconds; a directory carries whether it can be listed and its
  entries in the order in which \<^verbatim>\<open>os.scandir\<close> yields them. \<^verbatim>\<open>os.walk\<close> does not
  follow links, so the tree has none.
\<close>

datatype node = File "string option" real | Dir bool "(string \<times> node) list"

fun is_dir :: "node \<Rightarrow> bool" where
  "is_dir (Dir _ _) = True"
| "is_dir (File _ _) = False"

text \<open>
  The entry that the components name, from the node \<open>n\<close> with the directories above it,
  the nearest first: a \<^verbatim>\<open>..\<close> goes up from a directory, and stays at the root.
\<close>

fun resolve_from :: "node \<Rightarrow> node list \<Rightarrow> string list \<Rightarrow> node option" where
  "resolve_from n up [] = Some n"
| "resolve_from n up (c # cs) =
     (if c = ''..'' then
        (if is_dir n then
           (case up of [] \<Rightarrow> resolve_from n [] cs | m # up' \<Rightarrow> resolve_from m up' cs)
         else None)
      else
        (case n of
           File _ _ \<Rightarrow> None
         | Dir r es \<Rightarrow>
             (case map_of es c of None \<Rightarrow> None | Some n' \<Rightarrow> resolve_from n' (n # up) cs)))"

text \<open>The entry that a path names; the empty path names none.\<close>

definition resolve :: "node \<Rightarrow> string \<Rightarrow> node option" where
  "resolve fs p = (if p = [] then None else resolve_from fs [] (path_components p))"

text \<open>\<^verbatim>\<open>os.path.exists\<close> on the tree.\<close>

definition tree_exists :: "node \<Rightarrow> string \<Rightarrow> bool" where
  "tree_exists fs p = (resolve fs p \<noteq> None)"

lemma size_list_filter_le: "size_list f (filter P xs) \<le> size_list f xs"
  by (induction xs) auto

lemma size_list_filter_less: "2 * size_list f (filter P xs) < Suc (2 * size_list f xs)"
  using size_list_filter_le [of f P xs] by arith

section \<open>Note search\<close>

text \<open>
  One result of \<^verbatim>\<open>search_notes\<close>. The field \<open>h_date\<close> is
  \<^verbatim>\<open>datetime.fromtimestamp(mtime).strftime('%Y-%m-%d')\<close>, which depends on the local
  time zone: it is the parameter \<open>strftime\<close> of the search, \<open>None\<close> where it raises.
\<close>

record hit =
  h_file :: string
  h_path :: string
  h_rel_path :: string
  h_title :: string
  h_preview :: string
  h_date :: string
  h_mtime :: real

text \<open>The preview of a note, from its text: its first line, cut after 100 characters.\<close>

definition preview_of :: "string \<Rightarrow> string" where
  "preview_of content =
     (let lines = split_on (CHR 0x0A) content;
          preview = (case lines of [] \<Rightarrow> ''No preview available'' | l # _ \<Rightarrow> l)
      in if length preview > 100 then take 100 preview @ ''...'' else preview)"

text \<open>
  The body of the loop over the files of one directory. An exception inside it is caught
  by the handler of the file, which moves on to the next file.
\<close>

definition search_file ::
  "(string \<Rightarrow> string) \<Rightarrow> (real \<Rightarrow> string option) \<Rightarrow> string \<Rightarrow> string \<Rightarrow> string
     \<Rightarrow> string \<times> node \<Rightarrow> hit list" where
  "search_file lower strftime vault_path query_lower rt e =
     (case e of
        (file, Dir _ _) \<Rightarrow> []
      | (file, File content mt) \<Rightarrow>
          if endswith file ''.md'' then
            (case content of
               None \<Rightarrow> []
             | Some c \<Rightarrow>
                 let file_path = path_join rt file;
                     content_lower = lower c;
                     title_match = (str_find (lower (slice_to file (- 3))) query_lower \<ge> 0);
                     content_match = (str_find content_lower query_lower \<ge> 0)
                 in if title_match \<or> content_match then
                      (let rel_path = relpath file_path vault_path in
                       case strftime mt of
                         None \<Rightarrow> []
                       | Some date_str \<Rightarrow>
                           [\<lparr>h_file = file, h_path = file_path, h_rel_path = rel_path,
                             h_title = slice_to file (- 3), h_preview = preview_of c,
                             h_date = date_str, h_mtime = mt\<rparr>])
                    else [])
          else [])"

text \<open>
  The walk of \<^verbatim>\<open>search_notes\<close>: \<^verbatim>\<open>os.walk\<close> top down, the directories pruned in
  place. A directory that cannot be listed yields nothing (\<^verbatim>\<open>os.walk\<close> ignores the
  error).
\<close>

function search_walk ::
    "(string \<Rightarrow> string) \<Rightarrow> (real \<Rightarrow> string option) \<Rightarrow> string \<Rightarrow> string \<Rightarrow> string
       \<Rightarrow> node \<Rightarrow> hit list"
  and search_dirs ::
    "(string \<Rightarrow> string) \<Rightarrow> (real \<Rightarrow> string option) \<Rightarrow> string \<Rightarrow> string \<Rightarrow> string
       \<Rightarrow> (string \<times> node) list \<Rightarrow> hit list"
where
  "search_walk lw sf vp q rt (File c m) = []"
| "search_walk lw sf vp q rt (Dir r es) =
     (if \<not> r then []
      else
        (let dirs = filter (\<lambda>(d, n). is_dir n) es;
             files = filter (\<lambda>(f, n). \<not> is_dir n) es;
             dirs = filter (\<lambda>(d, n). d \<noteq> ''.obsidian'' \<and> \<not> startswith d ''.'') dirs
         in concat (map (search_file lw sf vp q rt) files) @ search_dirs lw sf vp q rt dirs))"
| "search_dirs lw sf vp q rt [] = []"
| "search_dirs lw sf vp q rt ((d, n) # ds) =
     search_walk lw sf vp q (path_join rt d) n @ search_dirs lw sf vp q rt ds"
  by pat_completeness auto
termination
  by (relation "measure (\<lambda>x. case x of
          Inl (lw, sf, vp, q, rt, n) \<Rightarrow> 2 * size n
        | Inr (lw, sf, vp, q, rt, ds) \<Rightarrow> Suc (2 * size_list (size_prod (\<lambda>_. 0) size) ds))")
     (simp_all add: size_list_filter_less)

text \<open>The list \<^verbatim>\<open>results\<close> of \<^verbatim>\<open>search_notes\<close> when the walk is over, before it is sorted.\<close>

definition search_results ::
  "(string \<Rightarrow> string) \<Rightarrow> node \<Rightarrow> (real \<Rightarrow> string option) \<Rightarrow> string \<Rightarrow> string \<Rightarrow> hit list" where
  "search_results lower fs strftime vault_path query_lower =
     (case resolve fs vault_path of
        None \<Rightarrow> []
      | Some n \<Rightarrow> search_walk lower strftime vault_path query_lower vault_path n)"

text \<open>
  The key of the sort,
  \<^verbatim>\<open>lambda x: (0 if query_lower in x['title'].lower() else 1, -x['mtime'])\<close>.
  \<^verbatim>\<open>list.sort(key=...)\<close> is a stable sort on the keys, here pairs compared
  lexicographically; \<^verbatim>\<open>results[:limit]\<close> is the slice.
\<close>

definition relevance_key :: "(string \<Rightarrow> string) \<Rightarrow> string \<Rightarrow> hit \<Rightarrow> nat \<times> real" where
  "relevance_key lower query_lower x =
     (if str_in query_lower (lower (h_title x)) then 0 else 1, - h_mtime x)"

definition search_notes ::
  "(string \<Rightarrow> string) \<Rightarrow> node \<Rightarrow> (real \<Rightarrow> string option) \<Rightarrow> string \<Rightarrow> string \<Rightarrow> int
     \<Rightarrow> hit list" where
  "search_notes lower fs strftime vault_path query limit =
     (let query_lower = lower query;
          results = search_results lower fs strftime vault_path query_lower;
          results = sort_key (relevance_key lower query_lower) results
      in slice_to results limit)"

subsection \<open>Notions for the statements about the search\<close>

text \<open>
  The files that the walk of \<^verbatim>\<open>search_notes\<close> comes to, each with the directory in which
  it lies, in the order of the walk.
\<close>

function note_files :: "string \<Rightarrow> node \<Rightarrow> (string \<times> string \<times> node) list"
  and note_files_dirs :: "string \<Rightarrow> (string \<times> node) list \<Rightarrow> (string \<times> string \<times> node) list"
where
  "note_files rt (File c m) = []"
| "note_files rt (Dir r es) =
     (if \<not> r then []
      else map (Pair rt) (filter (\<lambda>(f, n). \<not> is_dir n) es)
           @ note_files_dirs rt
               (filter (\<lambda>(d, n). d \<noteq> ''.obsidian'' \<and> \<not> startswith d ''.'')
                  (filter (\<lambda>(d, n). is_dir n) es)))"
| "note_files_dirs rt [] = []"
| "note_files_dirs rt ((d, n) # ds) = note_files (path_join rt d) n @ note_files_dirs rt ds"
  by pat_completeness auto
termination
  by (relation "measure (\<lambda>x. case x of
          Inl (rt, n) \<Rightarrow> 2 * size n
        | Inr (rt, ds) \<Rightarrow> Suc (2 * size_list (size_prod (\<lambda>_. 0) size) ds))")
     (simp_all add: size_list_filter_less)

text \<open>
  The files for which the loop body appends a result: the name ends in \<^verbatim>\<open>.md\<close>, the
  file can be read, the lowered query is in the lowered title or in the lowered text, and
  the date can be formatted. \<open>hit_of\<close> is the result appended for such a file.
\<close>

definition qualifies ::
  "(string \<Rightarrow> string) \<Rightarrow> (real \<Rightarrow> string option) \<Rightarrow> string \<Rightarrow> string \<times> node \<Rightarrow> bool" where
  "qualifies lower strftime query_lower e =
     (case e of
        (file, Dir _ _) \<Rightarrow> False
      | (file, File None mt) \<Rightarrow> False
      | (file, File (Some c) mt) \<Rightarrow>
          endswith file ''.md''
          \<and> (str_in query_lower (lower (slice_to file (- 3))) \<or> str_in query_lower (lower c))
          \<and> strftime mt \<noteq> None)"

definition hit_of :: "(real \<Rightarrow> string option) \<Rightarrow> string \<Rightarrow> string \<Rightarrow> string \<times> node \<Rightarrow> hit" where
  "hit_of strftime vault_path rt e =
     (case e of (file, n) \<Rightarrow>
        \<lparr>h_file = file, h_path = path_join rt file,
         h_rel_path = relpath (path_join rt file) vault_path,
         h_title = slice_to file (- 3),
         h_preview = (case n of File (Some c) mt \<Rightarrow> preview_of c | _ \<Rightarrow> []),
         h_date = (case n of File c mt \<Rightarrow> (case strftime mt of Some d \<Rightarrow> d | None \<Rightarrow> [])
                   | _ \<Rightarrow> []),
         h_mtime = (case n of File c mt \<Rightarrow> mt | _ \<Rightarrow> 0)\<rparr>)"

text \<open>
  A vault for the examples: \<^verbatim>\<open>/v/a.md\<close> and \<^verbatim>\<open>/v/sub/b.md\<close> have the word in
  their text only, the empty note \<^verbatim>\<open>/v/sub/hello.md\<close> has it in its title.
\<close>

definition example_vault :: node where
  "example_vault =
     Dir True [(''v'', Dir True
       [(''a.md'', File (Some ''Hello world'') 5),
        (''.obsidian'', Dir True []),
        (''sub'', Dir True
          [(''hello.md'', File (Some []) 7),
           (''b.md'', File (Some ''say hello'') 9)])])]"

definition example_strftime :: "real \<Rightarrow> string option" where
  "example_strftime t = Some ''2024-01-01''"

section \<open>Vault discovery\<close>

text \<open>The exceptions that the model tells apart.\<close>

datatype exn = ValueError | FileExistsError | FileNotFoundError | NotADirectoryError
  | IsADirectoryError | PermissionError

text \<open>
  One entry of the list that \<^verbatim>\<open>find_vaults\<close> returns. The entries \<^verbatim>\<open>note_count\<close> and
  \<^verbatim>\<open>recent_notes\<close>, which \<^verbatim>\<open>get_vault_info\<close> computes without ever raising, are
  left out: nothing below reads them.
\<close>

record vault_info =
  v_name :: string
  v_path :: string
  v_config_path :: string
  v_vault_id :: "string option"
  v_is_registered :: bool

text \<open>
  The registered vaults of \<^verbatim>\<open>obsidian.json\<close>, in the order of the dictionary: the id
  and, when the entry is a dictionary with a \<^verbatim>\<open>path\<close>, that path.
\<close>

type_synonym registry = "(string \<times> string option) list"

definition deny_list :: "string list" where
  "deny_list =
     [''node_modules'', ''venv'', ''.git'', ''__pycache__'', ''AppData'', ''Program Files'',
      ''Program Files (x86)'', ''Windows'', ''System32'', ''temp'', ''tmp'', ''$Recycle.Bin'']"

text \<open>
  \<^verbatim>\<open>dirs.remove(name)\<close> on the directory names of \<^verbatim>\<open>os.walk\<close>, each here with its
  subtree: the first entry of that name is removed, and \<^verbatim>\<open>ValueError\<close> is raised when
  there is none.
\<close>

fun dirs_remove :: "string \<Rightarrow> (string \<times> node) list \<Rightarrow> exn + (string \<times> node) list" where
  "dirs_remove name [] = Inl ValueError"
| "dirs_remove name ((d, n) # ds) =
     (if d = name then Inr ds
      else (case dirs_remove name ds of Inl e \<Rightarrow> Inl e | Inr ds' \<Rightarrow> Inr ((d, n) # ds')))"

definition vault_id_of :: "registry \<Rightarrow> string \<Rightarrow> string option" where
  "vault_id_of registered_vaults vault_path =
     (case find (\<lambda>(vid, vdata). vdata = Some vault_path) registered_vaults of
        None \<Rightarrow> None
      | Some (vid, vdata) \<Rightarrow> Some vid)"

text \<open>
  The body of the loop over \<^verbatim>\<open>os.walk(search_path)\<close> at the directory \<open>rt\<close> with the
  entries \<open>es\<close>: the new list of vaults, and the pruned directories to descend into or the
  exception that the body raises. Whether \<^verbatim>\<open>rt/.obsidian\<close> exists and is a directory is
  read from the entries of \<open>rt\<close>.
\<close>

definition visit ::
  "registry \<Rightarrow> string \<Rightarrow> (string \<times> node) list \<Rightarrow> vault_info list
     \<Rightarrow> vault_info list \<times> (exn + (string \<times> node) list)" where
  "visit registered_vaults rt es vaults =
     (let dirs = filter (\<lambda>(d, n). is_dir n) es;
          dirs = filter (\<lambda>(d, n). \<not> startswith d ''.'' \<and> d \<notin> set deny_list) dirs;
          obsidian_config = path_join rt ''.obsidian''
      in if (case map_of es ''.obsidian'' of None \<Rightarrow> False | Some n \<Rightarrow> is_dir n) then
           (let vault_path = rt;
                vault_name = basename rt;
                vault_id = vault_id_of registered_vaults vault_path;
                vault_info = \<lparr>v_name = vault_name, v_path = vault_path,
                              v_config_path = obsidian_config, v_vault_id = vault_id,
                              v_is_registered = (vault_id \<noteq> None)\<rparr>;
                vaults = (if \<not> list_ex (\<lambda>v. v_path v = vault_path) vaults
                          then vaults @ [vault_info] else vaults)
            in (vaults, dirs_remove ''.obsidian'' dirs))
         else (vaults, Inr dirs))"

lemma dirs_remove_size:
  "dirs_remove name ds = Inr ds' \<Longrightarrow> size_list f ds' \<le> size_list f ds"
  by (induction ds arbitrary: ds') (auto split: if_splits sum.splits)

lemma visit_size:
  assumes "visit regs rt es vaults = (vaults', Inr dirs)"
  shows "2 * size_list f dirs < Suc (2 * size_list f es)"
proof -
  let ?ds = "filter (\<lambda>(d, n). \<not> startswith d ''.'' \<and> d \<notin> set deny_list)
               (filter (\<lambda>(d, n). is_dir n) es)"
  have a: "size_list f ?ds \<le> size_list f es"
    by (rule le_trans [OF size_list_filter_le size_list_filter_le])
  have "dirs = ?ds \<or> dirs_remove ''.obsidian'' ?ds = Inr dirs"
    using assms by (auto simp: visit_def Let_def split: if_splits)
  then have "size_list f dirs \<le> size_list f ?ds"
    using dirs_remove_size [of "''.obsidian''" ?ds dirs f] by auto
  with a show ?thesis by arith
qed

text \<open>
  The loop itself, for one search path: the list of vaults when the walk stops, and the
  exception that stopped it, if any.
\<close>

function scan_walk ::
    "registry \<Rightarrow> string \<Rightarrow> node \<Rightarrow> vault_info list \<Rightarrow> vault_info list \<times> exn option"
  and scan_dirs ::
    "registry \<Rightarrow> string \<Rightarrow> (string \<times> node) list \<Rightarrow> vault_info list
       \<Rightarrow> vault_info list \<times> exn option"
where
  "scan_walk regs rt (File c m) vaults = (vaults, None)"
| "scan_walk regs rt (Dir r es) vaults =
     (if \<not> r then (vaults, None)
      else (case visit regs rt es vaults of
              (vaults', Inl e) \<Rightarrow> (vaults', Some e)
            | (vaults', Inr dirs) \<Rightarrow> scan_dirs regs rt dirs vaults'))"
| "scan_dirs regs rt [] vaults = (vaults, None)"
| "scan_dirs regs rt ((d, n) # ds) vaults =
     (case scan_walk regs (path_join rt d) n vaults of
        (vaults', Some e) \<Rightarrow> (vaults', Some e)
      | (vaults', None) \<Rightarrow> scan_dirs regs rt ds vaults')"
  by pat_completeness auto
termination
  by (relation "measure (\<lambda>x. case x of
          Inl (regs, rt, n, vaults) \<Rightarrow> 2 * size n
        | Inr (regs, rt, ds, vaults) \<Rightarrow> Suc (2 * size_list (size_prod (\<lambda>_. 0) size) ds))")
     (auto simp: visit_size [OF sym])

text \<open>
  The \<^verbatim>\<open>try\<close> statement around the walk of one search path: both handlers go on to the
  next search path, with the vaults recorded so far.
\<close>

definition scan_search_path ::
  "node \<Rightarrow> registry \<Rightarrow> string \<Rightarrow> vault_info list \<Rightarrow> vault_info list" where
  "scan_search_path fs regs search_path vaults =
     (case resolve fs search_path of
        None \<Rightarrow> vaults
      | Some n \<Rightarrow> fst (scan_walk regs search_path n vaults))"

text \<open>
  The environment of a scan: the directory tree, the registered vaults, the variables
  \<^verbatim>\<open>USERPROFILE\<close> and \<^verbatim>\<open>HOME\<close>, and the order in which \<^verbatim>\<open>list(set(search_paths))\<close>
  lists the set, which Python leaves open.
\<close>

record environment =
  env_tree :: node
  registered_vaults :: registry
  env_userprofile :: "string option"
  env_home :: "string option"
  set_order :: "string list \<Rightarrow> string list"

definition search_paths :: "environment \<Rightarrow> string list" where
  "search_paths env =
     (let user_profile = (case env_userprofile env of None \<Rightarrow> [] | Some s \<Rightarrow> s);
          home = (case env_home env of None \<Rightarrow> user_profile | Some s \<Rightarrow> s);
          search_paths =
            (if user_profile \<noteq> [] \<or> home \<noteq> [] then
               (let base_profile = (if user_profile \<noteq> [] then user_profile else home)
                in [path_join base_profile ''Documents'',
                    path_join (path_join base_profile ''OneDrive'') ''Documents'',
                    path_join base_profile ''Desktop'',
                    path_join base_profile ''Notes'',
                    path_join base_profile ''Obsidian'',
                    path_join base_profile ''Dropbox'',
                    path_join base_profile ''Google Drive'',
                    path_join base_profile ''iCloudDrive'',
                    base_profile])
             else []);
          search_paths = search_paths @
            concat (map (\<lambda>(vault_id, vault_data).
                           case vault_data of
                             None \<Rightarrow> []
                           | Some vault_path \<Rightarrow>
                               if tree_exists (env_tree env) vault_path then [vault_path] else [])
                      (registered_vaults env));
          search_paths = set_order env search_paths
      in filter (tree_exists (env_tree env)) search_paths)"

text \<open>The result of the scan: the list \<^verbatim>\<open>vaults\<close> after the loop over the search paths.\<close>

definition scan_vaults :: "environment \<Rightarrow> vault_info list" where
  "scan_vaults env =
     foldl (\<lambda>vaults search_path.
              scan_search_path (env_tree env) (registered_vaults env) search_path vaults)
       [] (search_paths env)"

text \<open>
  The attributes of the plugin object that the cache uses. Times are seconds, as
  \<^verbatim>\<open>time.time()\<close> returns them.
\<close>

record plugin =
  vaults :: "vault_info list"
  vaults_cache :: "(string \<times> vault_info) list"
  cache_timestamp :: real
  cache_duration :: real

text \<open>
  \<^verbatim>\<open>find_vaults\<close>: the scan, then the two assignments that cache its result. \<open>now\<close> is
  the value of \<^verbatim>\<open>time.time()\<close> when the scan is over.
\<close>

definition find_vaults :: "plugin \<Rightarrow> environment \<Rightarrow> real \<Rightarrow> vault_info list \<times> plugin" where
  "find_vaults self env now =
     (let vs = scan_vaults env;
          self = self\<lparr>vaults_cache := map (\<lambda>vault. (v_path vault, vault)) vs\<rparr>;
          self = self\<lparr>cache_timestamp := now\<rparr>
      in (vs, self))"

text \<open>
  \<^verbatim>\<open>__init__\<close>, in the order of its assignments. The object has no attribute before the
  first one, and \<^verbatim>\<open>find_vaults\<close> reads none: \<open>blank\<close> stands for that state.
\<close>

definition blank :: plugin where
  "blank = \<lparr>vaults = [], vaults_cache = [], cache_timestamp = 0, cache_duration = 0\<rparr>"

definition init :: "environment \<Rightarrow> real \<Rightarrow> plugin" where
  "init env now =
     (let (vs, self) = find_vaults blank env now;
          self = self\<lparr>vaults := vs\<rparr>;
          self = self\<lparr>vaults_cache := []\<rparr>;
          self = self\<lparr>cache_timestamp := 0\<rparr>;
          self = self\<lparr>cache_duration := 300\<rparr>
      in self)"

text \<open>
  \<^verbatim>\<open>refresh_vaults_cache\<close>: \<open>current_time\<close> is \<^verbatim>\<open>time.time()\<close> at the call, \<open>now\<close>
  the time at the end of the scan, when there is one.
\<close>

definition refresh_vaults_cache :: "plugin \<Rightarrow> environment \<Rightarrow> real \<Rightarrow> real \<Rightarrow> plugin" where
  "refresh_vaults_cache self env current_time now =
     (if current_time - cache_timestamp self > cache_duration self then
        (let (vs, self) = find_vaults self env now in self\<lparr>vaults := vs\<rparr>)
      else self)"

text \<open>
  Trees for the examples. In \<open>two_vaults\<close> the home directory \<^verbatim>\<open>/home\<close> holds the vaults
  \<^verbatim>\<open>/home/a\<close> and \<^verbatim>\<open>/home/b\<close>; \<open>three_vaults\<close> has \<^verbatim>\<open>/home/c\<close> as well. In
  \<open>hidden_vault\<close> the registered vault \<^verbatim>\<open>/home/.secret/v\<close> lies in a hidden directory.
\<close>

definition two_vaults :: node where
  "two_vaults =
     Dir True [(''home'', Dir True
       [(''a'', Dir True [(''.obsidian'', Dir True [])]),
        (''b'', Dir True [(''.obsidian'', Dir True [])])])]"

definition three_vaults :: node where
  "three_vaults =
     Dir True [(''home'', Dir True
       [(''c'', Dir True [(''.obsidian'', Dir True [])]),
        (''a'', Dir True [(''.obsidian'', Dir True [])]),
        (''b'', Dir True [(''.obsidian'', Dir True [])])])]"

definition hidden_vault :: node where
  "hidden_vault =
     Dir True [(''home'', Dir True
       [(''.secret'', Dir True [(''v'', Dir True [(''.obsidian'', Dir True [])])])])]"

definition example_env :: "node \<Rightarrow> registry \<Rightarrow> environment" where
  "example_env t regs =
     \<lparr>env_tree = t, registered_vaults = regs, env_userprofile = None, env_home = Some ''/home'',
      set_order = remdups\<rparr>"

definition documents_vault :: node where
  "documents_vault =
     Dir True [(''home'', Dir True
       [(''Documents'', Dir True [(''v'', Dir True [(''.obsidian'', Dir True [])])])])]"

definition hidden_env :: environment where
  "hidden_env = example_env hidden_vault [(''id1'', Some ''/home/.secret/v'')]"

definition hidden_record :: vault_info where
  "hidden_record =
     \<lparr>v_name = ''v'', v_path = ''/home/.secret/v'',
      v_config_path = ''/home/.secret/v/.obsidian'', v_vault_id = Some ''id1'',
      v_is_registered = True\<rparr>"

text \<open>In \<open>documents_two_vaults\<close> the directory \<^verbatim>\<open>/home/Documents\<close> holds two vaults.\<close>

definition documents_two_vaults :: node where
  "documents_two_vaults =
     Dir True [(''home'', Dir True
       [(''Documents'', Dir True
          [(''v1'', Dir True [(''.obsidian'', Dir True [])]),
           (''v2'', Dir True [(''.obsidian'', Dir True [])])])])]"

text \<open>
  In \<open>one_vault\<close> the home directory holds the single vault \<^verbatim>\<open>/home/a\<close>, which
  \<open>slash_env\<close> registers under the spelling \<^verbatim>\<open>/home/a/\<close>.
\<close>

definition one_vault :: node where
  "one_vault =
     Dir True [(''home'', Dir True [(''a'', Dir True [(''.obsidian'', Dir True [])])])]"

definition slash_env :: environment where
  "slash_env = example_env one_vault [(''id1'', Some ''/home/a/'')]"

subsection \<open>Notions for the proofs about discovery\<close>

text \<open>
  What the loop body does to the list of vaults when it detects a vault at \<open>p\<close>; the test
  for the marker directory; and the test that keeps a directory for the descent.
\<close>

definition record_vault :: "registry \<Rightarrow> vault_info list \<Rightarrow> string \<Rightarrow> vault_info list" where
  "record_vault regs vs p =
     (if \<not> list_ex (\<lambda>v. v_path v = p) vs
      then vs @ [\<lparr>v_name = basename p, v_path = p, v_config_path = path_join p ''.obsidian'',
                  v_vault_id = vault_id_of regs p,
                  v_is_registered = (vault_id_of regs p \<noteq> None)\<rparr>]
      else vs)"

definition has_marker :: "(string \<times> node) list \<Rightarrow> bool" where
  "has_marker es = (case map_of es ''.obsidian'' of None \<Rightarrow> False | Some n \<Rightarrow> is_dir n)"

definition kept :: "string \<Rightarrow> bool" where
  "kept d = (\<not> startswith d ''.'' \<and> d \<notin> set deny_list)"

text \<open>
  The names that entries of a directory can have, and the trees in which every entry has
  such a name.
\<close>

definition wf_name :: "string \<Rightarrow> bool" where
  "wf_name d = (d \<noteq> [] \<and> CHR ''/'' \<notin> set d)"

fun wf_tree :: "node \<Rightarrow> bool" where
  "wf_tree (File c m) = True"
| "wf_tree (Dir r es) = (\<forall>(d, n)\<in>set es. wf_name d \<and> wf_tree n)"

text \<open>
  \<open>descends n comps\<close>: from the directory \<open>n\<close> the names \<open>comps\<close> lead, entry by entry
  through directories that can be listed, to a directory that can be listed and holds the
  marker directory.
\<close>

fun descends :: "node \<Rightarrow> string list \<Rightarrow> bool" where
  "descends (File c m) comps = False"
| "descends (Dir r es) [] = (r \<and> has_marker es)"
| "descends (Dir r es) (c # comps) = (r \<and> (\<exists>(d, n)\<in>set es. d = c \<and> descends n comps))"

text \<open>
  \<open>reach n rt p\<close>: the path \<open>p\<close> is the path \<open>rt\<close> of the directory \<open>n\<close> joined with
  names that lead from \<open>n\<close> to a vault root, none of them hidden or deny-listed. \<open>folds\<close>
  says that a walk adds the vault roots of a list, one after the other, all of which
  satisfy \<open>R\<close>.
\<close>

definition reach :: "node \<Rightarrow> string \<Rightarrow> string \<Rightarrow> bool" where
  "reach n rt p =
     (\<exists>comps. descends n comps \<and> p = foldl path_join rt comps \<and> (\<forall>c\<in>set comps. kept c))"

definition folds ::
  "registry \<Rightarrow> (string \<Rightarrow> bool) \<Rightarrow> (vault_info list \<Rightarrow> vault_info list \<times> exn option) \<Rightarrow> bool"
where
  "folds regs R f =
     (\<exists>ps e. (\<forall>vs. f vs = (foldl (record_vault regs) vs ps, e)) \<and> (\<forall>p\<in>set ps. R p))"

section \<open>The files that note creation reads and writes\<close>

text \<open>
  Note creation works on a store of files and directories, each under its key, the
  components of its path; the root is always a directory. \<open>st_readonly\<close> lists the
  directories in which no entry can be created and the files that cannot be written.
\<close>

record store =
  st_files :: "(string list \<times> string) list"
  st_dirs :: "string list list"
  st_readonly :: "string list list"

definition os_path_isdir :: "store \<Rightarrow> string \<Rightarrow> bool" where
  "os_path_isdir st p =
     (p \<noteq> [] \<and> (path_components p = [] \<or> path_components p \<in> set (st_dirs st)))"

definition os_path_isfile :: "store \<Rightarrow> string \<Rightarrow> bool" where
  "os_path_isfile st p = (p \<noteq> [] \<and> path_components p \<in> fst ` set (st_files st))"

definition os_path_exists :: "store \<Rightarrow> string \<Rightarrow> bool" where
  "os_path_exists st p = (os_path_isdir st p \<or> os_path_isfile st p)"

text \<open>Why an entry with the key \<open>k\<close> cannot be created, if it cannot.\<close>

definition parent_error :: "store \<Rightarrow> string list \<Rightarrow> exn option" where
  "parent_error st k =
     (let parent = butlast k in
      if parent \<noteq> [] \<and> parent \<notin> set (st_dirs st) then
        (if parent \<in> fst ` set (st_files st) then Some NotADirectoryError
         else Some FileNotFoundError)
      else if parent \<in> set (st_readonly st) then Some PermissionError
      else None)"

text \<open>
  \<^verbatim>\<open>with open(p, 'w') as f: f.write(text)\<close> and \<^verbatim>\<open>with open(p, 'r') as f: f.read()\<close>.
\<close>

definition open_write :: "store \<Rightarrow> string \<Rightarrow> string \<Rightarrow> exn + store" where
  "open_write st p text =
     (if p = [] then Inl FileNotFoundError
      else if os_path_isdir st p then Inl IsADirectoryError
      else if os_path_isfile st p then
        (if path_components p \<in> set (st_readonly st) then Inl PermissionError
         else Inr (st\<lparr>st_files := (path_components p, text)
                       # filter (\<lambda>(k, c). k \<noteq> path_components p) (st_files st)\<rparr>))
      else (case parent_error st (path_components p) of
              Some e \<Rightarrow> Inl e
            | None \<Rightarrow> Inr (st\<lparr>st_files := (path_components p, text) # st_files st\<rparr>)))"

definition open_read :: "store \<Rightarrow> string \<Rightarrow> exn + string" where
  "open_read st p =
     (if p = [] then Inl FileNotFoundError
      else (case map_of (st_files st) (path_components p) of
              Some text \<Rightarrow> Inr text
            | None \<Rightarrow> if os_path_isdir st p then Inl IsADirectoryError
                      else Inl FileNotFoundError))"

text \<open>
  \<^verbatim>\<open>os.makedirs(name, exist_ok=True)\<close>: every directory on the way to \<open>name\<close> that is
  missing is created, the outermost first. The call raises when one of them cannot be
  created, or exists and is not a directory; the directories created before stay.
\<close>

definition key_prefixes :: "string list \<Rightarrow> string list list" where
  "key_prefixes k = map (\<lambda>n. take n k) [1 ..< Suc (length k)]"

fun mkdirs_keys :: "store \<Rightarrow> string list list \<Rightarrow> exn option \<times> store" where
  "mkdirs_keys st [] = (None, st)"
| "mkdirs_keys st (q # qs) =
     (if q \<in> set (st_dirs st) then mkdirs_keys st qs
      else if q \<in> fst ` set (st_files st)
        then (Some (if qs = [] then FileExistsError else NotADirectoryError), st)
      else if butlast q \<in> set (st_readonly st) then (Some PermissionError, st)
      else mkdirs_keys (st\<lparr>st_dirs := q # st_dirs st\<rparr>) qs)"

definition makedirs :: "store \<Rightarrow> string \<Rightarrow> exn option \<times> store" where
  "makedirs st name =
     (if name = [] then (Some FileNotFoundError, st)
      else mkdirs_keys st (key_prefixes (path_components name)))"

section \<open>Creating a note\<close>

text \<open>\<^verbatim>\<open>str(counter)\<close> for a counter that is not negative.\<close>

definition digit_char :: "nat \<Rightarrow> char" where
  "digit_char n = ''0123456789'' ! n"

fun str_nat :: "nat \<Rightarrow> string" where
  "str_nat n = (if n < 10 then [digit_char n] else str_nat (n div 10) @ [digit_char (n mod 10)])"

declare str_nat.simps [simp del]

text \<open>\<^verbatim>\<open>re.sub(r'[<>:"/\\|?*]', '_', title)\<close>.\<close>

definition sanitize :: "string \<Rightarrow> string" where
  "sanitize title =
     map (\<lambda>c. if c \<in> set [CHR ''<'', CHR ''>'', CHR '':'', CHR 0x22, CHR ''/'', CHR 0x5C,
                             CHR ''|'', CHR ''?'', CHR ''*'']
               then CHR ''_'' else c) title"

text \<open>The name that the loop tries for a counter.\<close>

definition numbered :: "string \<Rightarrow> string \<Rightarrow> nat \<Rightarrow> string" where
  "numbered vault_path filename counter =
     path_join vault_path (filename @ '' '' @ str_nat counter @ ''.md'')"

text \<open>
  The loop ends because different counters give different names and the store is finite:
  the number of names from the counter on that exist decreases.
\<close>

lemma digit_char_inj: "a < 10 \<Longrightarrow> b < 10 \<Longrightarrow> digit_char a = digit_char b \<Longrightarrow> a = b"
  unfolding digit_char_def
  by (auto simp: nth_Cons' less_Suc_eq numeral_eq_Suc split: if_splits)

lemma str_nat_not_Nil: "str_nat n \<noteq> []"
  by (subst str_nat.simps) simp

lemma str_nat_inj: "str_nat a = str_nat b \<Longrightarrow> a = b"
proof (induction a arbitrary: b rule: str_nat.induct)
  case (1 a)
  show ?case
  proof (cases "a < 10")
    case True
    then have sa: "str_nat a = [digit_char a]" by (subst str_nat.simps) simp
    show ?thesis
    proof (cases "b < 10")
      case b: True
      then have "str_nat b = [digit_char b]" by (subst str_nat.simps) simp
      with sa "1.prems" True b show ?thesis by (auto dest: digit_char_inj)
    next
      case b: False
      then have "str_nat b = str_nat (b div 10) @ [digit_char (b mod 10)]"
        by (subst str_nat.simps) simp
      with sa "1.prems" have "str_nat (b div 10) = []" by simp
      then show ?thesis using str_nat_not_Nil by blast
    qed
  next
    case False
    then have sa: "str_nat a = str_nat (a div 10) @ [digit_char (a mod 10)]"
      by (subst str_nat.simps) simp
    show ?thesis
    proof (cases "b < 10")
      case b: True
      then have "str_nat b = [digit_char b]" by (subst str_nat.simps) simp
      with sa "1.prems" have "str_nat (a div 10) = []" by simp
      then show ?thesis using str_nat_not_Nil by blast
    next
      case b: False
      then have "str_nat b = str_nat (b div 10) @ [digit_char (b mod 10)]"
        by (subst str_nat.simps) simp
      with sa "1.prems" have e1: "str_nat (a div 10) = str_nat (b div 10)"
        and e2: "digit_char (a mod 10) = digit_char (b mod 10)" by simp_all
      from "1.IH" [OF False e1] have "a div 10 = b div 10" .
      moreover have "a mod 10 = b mod 10"
        by (rule digit_char_inj [OF _ _ e2]) simp_all
      ultimately show ?thesis
        by (metis div_mult_mod_eq)
    qed
  qed
qed

lemma split_on_not_Nil: "split_on sep s \<noteq> []"
  by (induction s) (auto split: list.splits)

lemma split_on_append_no_sep:
  "sep \<notin> set y \<Longrightarrow>
   split_on sep (x @ y) = butlast (split_on sep x) @ [last (split_on sep x) @ y]"
proof (induction x)
  case Nil
  then show ?case
    by (induction y) (auto split: list.splits)
next
  case (Cons c x)
  then show ?case
    using split_on_not_Nil [of sep x]
    by (cases "split_on sep x") (auto split: list.splits)
qed

lemma path_components_append_last:
  assumes "CHR ''/'' \<notin> set y" and "2 \<le> length y"
  shows "path_components (x @ y) \<noteq> []
       \<and> last (path_components (x @ y)) = last (split_on (CHR ''/'') x) @ y"
proof -
  let ?z = "last (split_on (CHR ''/'') x) @ y"
  have "?z \<noteq> [] \<and> ?z \<noteq> ''.''"
    using assms(2) by (auto simp: append_eq_Cons_conv)
  then show ?thesis
    unfolding path_components_def by (simp add: split_on_append_no_sep [OF assms(1)])
qed

lemma numbered_form:
  "\<exists>x. \<forall>k. numbered vp fn k = x @ '' '' @ str_nat k @ ''.md''"
proof (cases "startswith fn ''/''")
  case True
  then have "\<forall>k. numbered vp fn k = fn @ '' '' @ str_nat k @ ''.md''"
    by (cases fn) (auto simp: numbered_def path_join_def startswith_def)
  then show ?thesis by blast
next
  case False
  then have ns: "\<forall>k. \<not> startswith (fn @ '' '' @ str_nat k @ ''.md'') ''/''"
    by (cases fn) (auto simp: startswith_def)
  show ?thesis
  proof (cases "vp = [] \<or> endswith vp ''/''")
    case True
    then have "\<forall>k. numbered vp fn k = (vp @ fn) @ '' '' @ str_nat k @ ''.md''"
      using ns by (simp add: numbered_def path_join_def)
    then show ?thesis by blast
  next
    case False
    then have "\<forall>k. numbered vp fn k = (vp @ ''/'' @ fn) @ '' '' @ str_nat k @ ''.md''"
      using ns by (simp add: numbered_def path_join_def)
    then show ?thesis by blast
  qed
qed

lemma str_nat_digits: "set (str_nat n) \<subseteq> set ''0123456789''"
proof (induction n rule: str_nat.induct)
  case (1 n)
  have d: "digit_char m \<in> set ''0123456789''" if "m < 10" for m
    using that unfolding digit_char_def
    by (auto simp: nth_Cons' less_Suc_eq numeral_eq_Suc split: if_splits)
  show ?case
  proof (cases "n < 10")
    case True
    then show ?thesis using d [of n] by (subst str_nat.simps) simp
  next
    case False
    then show ?thesis
      using "1.IH" d [of "n mod 10"] by (subst str_nat.simps) simp
  qed
qed

lemma numbered_key_inj: "inj (\<lambda>k. path_components (numbered vp fn k))"
proof (rule injI)
  fix a b
  assume eq: "path_components (numbered vp fn a) = path_components (numbered vp fn b)"
  obtain x where x: "\<forall>k. numbered vp fn k = x @ '' '' @ str_nat k @ ''.md''"
    using numbered_form by blast
  have ns: "CHR ''/'' \<notin> set ('' '' @ str_nat k @ ''.md'')" for k
    using str_nat_digits [of k] by auto
  have ln: "2 \<le> length ('' '' @ str_nat k @ ''.md'')" for k
    by simp
  have "last (path_components (numbered vp fn k))
      = last (split_on (CHR ''/'') x) @ '' '' @ str_nat k @ ''.md''" for k
    using path_components_append_last [OF ns ln, of x k] x by simp
  with eq have "last (split_on (CHR ''/'') x) @ '' '' @ str_nat a @ ''.md''
      = last (split_on (CHR ''/'') x) @ '' '' @ str_nat b @ ''.md''"
    by metis
  then have "str_nat a = str_nat b" by simp
  then show "a = b" by (rule str_nat_inj)
qed

lemma exists_key:
  "os_path_exists st p \<Longrightarrow>
   path_components p \<in> insert [] (set (st_dirs st) \<union> fst ` set (st_files st))"
  by (auto simp: os_path_exists_def os_path_isdir_def os_path_isfile_def)

lemma finite_numbered_exists: "finite {k. os_path_exists st (numbered vp fn k)}"
proof -
  let ?K = "insert [] (set (st_dirs st) \<union> fst ` set (st_files st))"
  have "finite ((\<lambda>k. path_components (numbered vp fn k)) -` ?K)"
    by (rule finite_vimageI [OF _ numbered_key_inj]) simp
  moreover have "{k. os_path_exists st (numbered vp fn k)}
      \<subseteq> (\<lambda>k. path_components (numbered vp fn k)) -` ?K"
    using exists_key by auto
  ultimately show ?thesis by (rule rev_finite_subset)
qed

definition probes_left :: "store \<Rightarrow> string \<Rightarrow> string \<Rightarrow> string \<Rightarrow> nat \<Rightarrow> nat" where
  "probes_left st vp fn full_path counter =
     2 * card {k. counter \<le> k \<and> os_path_exists st (numbered vp fn k)}
     + (if os_path_exists st full_path then 1 else 0)"

lemma probes_left_decreases:
  assumes "os_path_exists st full_path"
  shows "probes_left st vp fn (numbered vp fn counter) (Suc counter)
           < probes_left st vp fn full_path counter"
proof -
  let ?A = "{k. counter \<le> k \<and> os_path_exists st (numbered vp fn k)}"
  let ?A' = "{k. Suc counter \<le> k \<and> os_path_exists st (numbered vp fn k)}"
  have fin: "finite ?A"
    by (rule rev_finite_subset [OF finite_numbered_exists]) auto
  show ?thesis
  proof (cases "os_path_exists st (numbered vp fn counter)")
    case True
    then have "?A = insert counter ?A'" by (auto simp: Suc_le_eq le_less)
    moreover have "counter \<notin> ?A'" by simp
    moreover have "finite ?A'"
      by (rule rev_finite_subset [OF finite_numbered_exists]) auto
    ultimately have "card ?A = Suc (card ?A')" by simp
    then show ?thesis
      using assms True by (simp add: probes_left_def)
  next
    case False
    then have "?A' = ?A"
      by (auto simp: Suc_le_eq le_less)
    then show ?thesis
      using assms False by (simp add: probes_left_def)
  qed
qed

text \<open>
  The loop \<^verbatim>\<open>while os.path.exists(full_path)\<close> of \<^verbatim>\<open>create_new_note\<close>, from the state
  \<open>(full_path, counter)\<close>.
\<close>

function probe :: "store \<Rightarrow> string \<Rightarrow> string \<Rightarrow> string \<Rightarrow> nat \<Rightarrow> string" where
  "probe st vault_path filename full_path counter =
     (if os_path_exists st full_path
      then probe st vault_path filename (numbered vault_path filename counter) (counter + 1)
      else full_path)"
  by pat_completeness auto
termination
  by (relation "measure (\<lambda>(st, vp, fn, full_path, counter).
        probes_left st vp fn full_path counter)")
     (simp_all add: probes_left_decreases)

declare probe.simps [simp del]

text \<open>
  \<open>strftime\<close> is \<^verbatim>\<open>datetime.now().strftime\<close>. The handler of \<^verbatim>\<open>create_new_note\<close>
  catches every exception of the write and returns \<^verbatim>\<open>(None, None)\<close>, here \<open>None\<close>.
\<close>

definition new_note_text :: "(string \<Rightarrow> string) \<Rightarrow> string \<Rightarrow> string" where
  "new_note_text strftime title =
     ''# '' @ title @ [CHR 0x0A, CHR 0x0A]
     @ ''Created: '' @ strftime ''%Y-%m-%d %H:%M:%S'' @ [CHR 0x0A, CHR 0x0A]
     @ ''## Content'' @ [CHR 0x0A, CHR 0x0A]
     @ ''- '' @ [CHR 0x0A, CHR 0x0A]"

definition create_new_note ::
  "(string \<Rightarrow> string) \<Rightarrow> store \<Rightarrow> string \<Rightarrow> string \<Rightarrow> (string \<times> string) option \<times> store" where
  "create_new_note strftime st vault_path title =
     (let filename = sanitize title;
          full_path = path_join vault_path (filename @ ''.md'');
          full_path = probe st vault_path filename full_path 1
      in case open_write st full_path (new_note_text strftime title) of
           Inl e \<Rightarrow> (None, st)
         | Inr st' \<Rightarrow> (Some (full_path, relpath full_path vault_path), st'))"

section \<open>The daily note\<close>

text \<open>
  The daily-notes configuration is a JSON object, here with string values. \<open>json_load\<close>
  is \<^verbatim>\<open>json.load\<close> on the text of the file, \<open>None\<close> where it raises.
\<close>

type_synonym config = "(string \<times> string) list"

definition get_daily_notes_config ::
  "(string \<Rightarrow> config option) \<Rightarrow> store \<Rightarrow> string \<Rightarrow> config option" where
  "get_daily_notes_config json_load st vault_path =
     (let config_path = path_join (path_join vault_path ''.obsidian'') ''daily-notes.json''
      in if os_path_exists st config_path then
           (case open_read st config_path of
              Inl e \<Rightarrow> None
            | Inr text \<Rightarrow> json_load text)
         else None)"

text \<open>\<^verbatim>\<open>daily_config and key in daily_config\<close>, with the value of the key.\<close>

definition config_entry :: "config option \<Rightarrow> string \<Rightarrow> string option" where
  "config_entry daily_config key =
     (case daily_config of
        None \<Rightarrow> None
      | Some cfg \<Rightarrow> if cfg \<noteq> [] then map_of cfg key else None)"

definition process_template :: "(string \<Rightarrow> string) \<Rightarrow> string \<Rightarrow> string \<Rightarrow> string" where
  "process_template strftime template_content title =
     foldl (\<lambda>content (var, val). str_replace var val content) template_content
       [(''{{title}}'', title),
        (''{{date}}'', strftime ''%Y-%m-%d''),
        (''{{time}}'', strftime ''%H:%M''),
        (''{{date:YYYY-MM-DD}}'', strftime ''%Y-%m-%d''),
        (''{{date:MMM DD YYYY}}'', strftime ''%b %d %Y'')]"

text \<open>
  The part of \<^verbatim>\<open>create_daily_note_with_template\<close> that looks for the template: the
  content it leaves, or the exception of reading the template.
\<close>

definition template_content ::
  "(string \<Rightarrow> string) \<Rightarrow> store \<Rightarrow> string \<Rightarrow> string \<Rightarrow> config option \<Rightarrow> exn + string" where
  "template_content strftime st vault_path title daily_config =
     (case config_entry daily_config ''template'' of
        None \<Rightarrow> Inr []
      | Some template \<Rightarrow>
          (let template_paths = [path_join vault_path (template @ ''.md''),
                                 path_join vault_path template]
           in case find (os_path_exists st) template_paths of
                None \<Rightarrow> Inr []
              | Some template_path \<Rightarrow>
                  (case open_read st template_path of
                     Inl e \<Rightarrow> Inl e
                   | Inr text \<Rightarrow> Inr (process_template strftime text title))))"

definition default_content :: "(string \<Rightarrow> string) \<Rightarrow> string \<Rightarrow> string" where
  "default_content strftime title =
     ''# '' @ title @ [CHR 0x0A, CHR 0x0A]
     @ ''Date: '' @ strftime ''%Y-%m-%d %H:%M:%S'' @ [CHR 0x0A, CHR 0x0A]
     @ ''## Notes'' @ [CHR 0x0A, CHR 0x0A]
     @ ''- '' @ [CHR 0x0A, CHR 0x0A]"

definition create_daily_note_with_template ::
  "(string \<Rightarrow> string) \<Rightarrow> store \<Rightarrow> string \<Rightarrow> string \<Rightarrow> string \<Rightarrow> config option
     \<Rightarrow> (string \<times> string) option \<times> store" where
  "create_daily_note_with_template strftime st vault_path daily_path title daily_config =
     (let full_path = path_join daily_path (title @ ''.md'')
      in if os_path_exists st full_path then
           (Some (full_path, relpath full_path vault_path), st)
         else
           (case template_content strftime st vault_path title daily_config of
              Inl e \<Rightarrow> (None, st)
            | Inr content \<Rightarrow>
                (let content = (if content = [] then default_content strftime title
                                else content)
                 in case open_write st full_path content of
                      Inl e \<Rightarrow> (None, st)
                    | Inr st' \<Rightarrow> (Some (full_path, relpath full_path vault_path), st'))))"

text \<open>
  What a call hands back: the value it returns, or the exception it lets through.
\<close>

datatype 'a outcome = Returned 'a | Raised exn

text \<open>
  \<^verbatim>\<open>create_daily_note\<close>: the title (the one given, unless it is missing or empty, or the
  date in the configured format), the folder, and the calls. The platform is not Windows,
  as for the paths. The call of \<^verbatim>\<open>os.makedirs\<close> stands in no \<^verbatim>\<open>try\<close> statement.
  \<^verbatim>\<open>sort_daily_notes_folder\<close> only lists the folder and sorts the names in memory,
  inside a handler of its own: it changes nothing and raises nothing.
\<close>

definition daily_title :: "(string \<Rightarrow> string) \<Rightarrow> config option \<Rightarrow> string option \<Rightarrow> string" where
  "daily_title strftime daily_config title =
     (case (case title of
              Some t \<Rightarrow> if t \<noteq> [] then Some t else None
            | None \<Rightarrow> None) of
        Some t \<Rightarrow> t
      | None \<Rightarrow>
          (case config_entry daily_config ''format'' of
             Some obsidian_format \<Rightarrow> strftime (obsidian_to_python_format False obsidian_format)
           | None \<Rightarrow> strftime ''%Y-%m-%d''))"

definition daily_folder :: "config option \<Rightarrow> string" where
  "daily_folder daily_config =
     (case config_entry daily_config ''folder'' of
        Some folder \<Rightarrow> folder
      | None \<Rightarrow> ''Daily'')"

definition create_daily_note ::
  "(string \<Rightarrow> config option) \<Rightarrow> (string \<Rightarrow> string) \<Rightarrow> store \<Rightarrow> string \<Rightarrow> string option
     \<Rightarrow> (string \<times> string) option outcome \<times> store" where
  "create_daily_note json_load strftime st vault_path title =
     (let daily_config = get_daily_notes_config json_load st vault_path;
          title = daily_title strftime daily_config title;
          daily_path = path_join vault_path (daily_folder daily_config)
      in case makedirs st daily_path of
           (Some e, st') \<Rightarrow> (Raised e, st')
         | (None, st') \<Rightarrow>
             (case create_daily_note_with_template strftime st' vault_path daily_path title
                     daily_config of
                (r, st'') \<Rightarrow> (Returned r, st'')))"

text \<open>
  Stores for the examples: a vault \<^verbatim>\<open>/v\<close> with the notes \<^verbatim>\<open>x.md\<close> and \<^verbatim>\<open>x 1.md\<close>; an
  empty vault \<^verbatim>\<open>/v\<close>; and a vault \<^verbatim>\<open>/v\<close> in which nothing can be created.
\<close>

definition notes_store :: store where
  "notes_store =
     \<lparr>st_files = [([''v'', ''x.md''], ''old''), ([''v'', ''x 1.md''], ''old 1'')],
      st_dirs = [[''v'']], st_readonly = []\<rparr>"

definition empty_vault_store :: store where
  "empty_vault_store = \<lparr>st_files = [], st_dirs = [[''v'']], st_readonly = []\<rparr>"

definition readonly_vault_store :: store where
  "readonly_vault_store = \<lparr>st_files = [], st_dirs = [[''v'']], st_readonly = [[''v'']]\<rparr>"

definition example_json_load :: "string \<Rightarrow> config option" where
  "example_json_load text = None"

definition example_now :: "string \<Rightarrow> string" where
  "example_now fmt = (if fmt = ''%Y-%m-%d'' then ''2024-01-01'' else ''2024-01-01 12:00:00'')"

section \<open>The date-format table is applied longest token first\<close>

text \<open>
  A replacement passes over a stretch of text in which the first letter of the token does
  not occur.
\<close>

lemma str_replace_skip:
  "old \<noteq> [] \<Longrightarrow> hd old \<notin> set s \<Longrightarrow> str_replace old new (s @ t) = s @ str_replace old new t"
proof (induction s)
  case Nil
  then show ?case by simp
next
  case (Cons c s)
  then have "take (length old) (c # s @ t) \<noteq> old"
    by (cases old) auto
  with Cons show ?case by simp
qed

lemma str_replace_absent:
  "old \<noteq> [] \<Longrightarrow> hd old \<notin> set s \<Longrightarrow> str_replace old new s = s"
  using str_replace_skip [of old s new "[]"] by simp

lemma take_eq_Cons_absent: "c \<notin> set s \<Longrightarrow> (take n s = c # xs) = False"
  by (metis in_set_takeD list.set_intros(1))

text \<open>
  Each token of the table, in a text that has no other token letter, is translated to its
  own code. For \<^verbatim>\<open>MMMM\<close>, \<^verbatim>\<open>MMM\<close> and \<^verbatim>\<open>YYYY\<close> this needs the order of the table:
  with \<^verbatim>\<open>MM\<close> or \<^verbatim>\<open>YY\<close> replaced first the result would be two short codes.
\<close>

lemma token_in_context:
  assumes "set s1 \<inter> token_letters = {}" and "set s2 \<inter> token_letters = {}"
  shows "obsidian_to_python_format w (s1 @ ''YYYY'' @ s2) = s1 @ ''%Y'' @ s2"
    and "obsidian_to_python_format w (s1 @ ''YY'' @ s2) = s1 @ ''%y'' @ s2"
    and "obsidian_to_python_format w (s1 @ ''MMMM'' @ s2) = s1 @ ''%B'' @ s2"
    and "obsidian_to_python_format w (s1 @ ''MMM'' @ s2) = s1 @ ''%b'' @ s2"
    and "obsidian_to_python_format w (s1 @ ''MM'' @ s2) = s1 @ ''%m'' @ s2"
    and "obsidian_to_python_format w (s1 @ ''DD'' @ s2) = s1 @ ''%d'' @ s2"
    and "obsidian_to_python_format w (s1 @ ''D'' @ s2) = s1 @ (if w then ''%#d'' else ''%-d'') @ s2"
    and "obsidian_to_python_format w (s1 @ ''dddd'' @ s2) = s1 @ ''%A'' @ s2"
    and "obsidian_to_python_format w (s1 @ ''ddd'' @ s2) = s1 @ ''%a'' @ s2"
    and "obsidian_to_python_format w (s1 @ ''ww'' @ s2) = s1 @ ''%U'' @ s2"
    and "obsidian_to_python_format w (s1 @ ''w'' @ s2) = s1 @ ''%W'' @ s2"
proof -
  have a: "CHR ''Y'' \<notin> set s1" "CHR ''M'' \<notin> set s1" "CHR ''D'' \<notin> set s1"
    "CHR ''d'' \<notin> set s1" "CHR ''w'' \<notin> set s1"
    using assms(1) by (auto simp: token_letters_def)
  have b: "CHR ''Y'' \<notin> set s2" "CHR ''M'' \<notin> set s2" "CHR ''D'' \<notin> set s2"
    "CHR ''d'' \<notin> set s2" "CHR ''w'' \<notin> set s2"
    using assms(2) by (auto simp: token_letters_def)
  note r = obsidian_to_python_format_def format_mapping_def str_replace_skip
    str_replace_absent take_eq_Cons_absent
  show "obsidian_to_python_format w (s1 @ ''YYYY'' @ s2) = s1 @ ''%Y'' @ s2"
    using a b by (simp add: r)
  show "obsidian_to_python_format w (s1 @ ''YY'' @ s2) = s1 @ ''%y'' @ s2"
    using a b by (simp add: r)
  show "obsidian_to_python_format w (s1 @ ''MMMM'' @ s2) = s1 @ ''%B'' @ s2"
    using a b by (simp add: r)
  show "obsidian_to_python_format w (s1 @ ''MMM'' @ s2) = s1 @ ''%b'' @ s2"
    using a b by (simp add: r)
  show "obsidian_to_python_format w (s1 @ ''MM'' @ s2) = s1 @ ''%m'' @ s2"
    using a b by (simp add: r)
  show "obsidian_to_python_format w (s1 @ ''DD'' @ s2) = s1 @ ''%d'' @ s2"
    using a b by (simp add: r)
  show "obsidian_to_python_format w (s1 @ ''D'' @ s2) = s1 @ (if w then ''%#d'' else ''%-d'') @ s2"
    using a b by (simp add: r)
  show "obsidian_to_python_format w (s1 @ ''dddd'' @ s2) = s1 @ ''%A'' @ s2"
    using a b by (simp add: r)
  show "obsidian_to_python_format w (s1 @ ''ddd'' @ s2) = s1 @ ''%a'' @ s2"
    using a b by (simp add: r)
  show "obsidian_to_python_format w (s1 @ ''ww'' @ s2) = s1 @ ''%U'' @ s2"
    using a b by (simp add: r)
  show "obsidian_to_python_format w (s1 @ ''w'' @ s2) = s1 @ ''%W'' @ s2"
    using a b by (simp add: r)
qed

lemma every_token_in_context:
  assumes "set s1 \<inter> token_letters = {}" and "set s2 \<inter> token_letters = {}"
  shows "\<forall>(token, code)\<in>set (format_mapping w).
           obsidian_to_python_format w (s1 @ token @ s2) = s1 @ code @ s2"
  unfolding format_mapping_def
  using token_in_context [OF assms, of w] by simp


text \<open>
  Claim C8. \<^verbatim>\<open>obsidian_to_python_format\<close> replaces the tokens of its table one after
  the other, in the order of the table, and in the table no token stands before a token
  that contains it, so of two colliding tokens the longer one is replaced first:
  \<^verbatim>\<open>YYYY\<close> before \<^verbatim>\<open>YY\<close>, \<^verbatim>\<open>MMMM\<close> before \<^verbatim>\<open>MMM\<close> before \<^verbatim>\<open>MM\<close>. Hence every
  token, standing in a text without other token letters, is translated to its own code and
  not to the codes of its parts: \<^verbatim>\<open>MMMM MMM MM\<close> becomes \<^verbatim>\<open>%B %b %m\<close> and
  \<^verbatim>\<open>YYYY YY\<close> becomes \<^verbatim>\<open>%Y %y\<close>. The pattern \<^verbatim>\<open>YYYY-MM-DD\<close> is translated to
  \<^verbatim>\<open>%Y-%m-%d\<close>, in which no \<^verbatim>\<open>Y\<close>, \<^verbatim>\<open>M\<close> or \<^verbatim>\<open>D\<close> is left over: the only such
  letter is the one of the directive \<^verbatim>\<open>%Y\<close>, which follows its percent sign.
\<close>

theorem obsidian_to_python_format_longest_first:
  fixes w :: bool
  defines "tokens \<equiv> map fst (format_mapping w)"
  shows "(\<forall>s. obsidian_to_python_format w s =
              foldl (\<lambda>acc (token, code). str_replace token code acc) s (format_mapping w))
       \<and> (\<forall>i j. i < j \<and> j < length tokens \<longrightarrow> \<not> str_in (tokens ! i) (tokens ! j))
       \<and> (\<exists>i j k l m. i < j \<and> k < l \<and> l < m \<and> m < length tokens
            \<and> tokens ! i = ''YYYY'' \<and> tokens ! j = ''YY''
            \<and> tokens ! k = ''MMMM'' \<and> tokens ! l = ''MMM'' \<and> tokens ! m = ''MM'')
       \<and> (\<forall>s1 s2. set s1 \<inter> token_letters = {} \<and> set s2 \<inter> token_letters = {} \<longrightarrow>
            (\<forall>(token, code)\<in>set (format_mapping w).
               obsidian_to_python_format w (s1 @ token @ s2) = s1 @ code @ s2))
       \<and> obsidian_to_python_format w ''YYYY-MM-DD'' = ''%Y-%m-%d''
       \<and> obsidian_to_python_format w ''MMMM MMM MM'' = ''%B %b %m''
       \<and> obsidian_to_python_format w ''YYYY YY'' = ''%Y %y''
       \<and> (\<forall>i < length (obsidian_to_python_format w ''YYYY-MM-DD'').
            obsidian_to_python_format w ''YYYY-MM-DD'' ! i \<in> {CHR ''Y'', CHR ''M'', CHR ''D''} \<longrightarrow>
            0 < i \<and> obsidian_to_python_format w ''YYYY-MM-DD'' ! (i - 1) = CHR ''%'')"
proof -
  have fold: "\<forall>s. obsidian_to_python_format w s =
              foldl (\<lambda>acc (token, code). str_replace token code acc) s (format_mapping w)"
    by (simp add: obsidian_to_python_format_def)
  have sw: "sorted_wrt (\<lambda>a b. \<not> str_in a b) tokens"
    by (simp add: tokens_def format_mapping_def)
  have ord: "\<forall>i j. i < j \<and> j < length tokens \<longrightarrow> \<not> str_in (tokens ! i) (tokens ! j)"
    using sw by (simp add: sorted_wrt_iff_nth_less)
  have idx: "\<exists>i j k l m. i < j \<and> k < l \<and> l < m \<and> m < length tokens
            \<and> tokens ! i = ''YYYY'' \<and> tokens ! j = ''YY''
            \<and> tokens ! k = ''MMMM'' \<and> tokens ! l = ''MMM'' \<and> tokens ! m = ''MM''"
    by (rule exI [of _ 0], rule exI [of _ 1], rule exI [of _ 2], rule exI [of _ 3],
        rule exI [of _ 4]) (simp add: tokens_def format_mapping_def)
  have ctx: "\<forall>s1 s2. set s1 \<inter> token_letters = {} \<and> set s2 \<inter> token_letters = {} \<longrightarrow>
            (\<forall>(token, code)\<in>set (format_mapping w).
               obsidian_to_python_format w (s1 @ token @ s2) = s1 @ code @ s2)"
    using every_token_in_context by blast
  have ex: "obsidian_to_python_format w ''YYYY-MM-DD'' = ''%Y-%m-%d''"
    by (simp add: obsidian_to_python_format_def format_mapping_def)
  have ex2: "obsidian_to_python_format w ''MMMM MMM MM'' = ''%B %b %m''"
    by (simp add: obsidian_to_python_format_def format_mapping_def)
  have ex3: "obsidian_to_python_format w ''YYYY YY'' = ''%Y %y''"
    by (simp add: obsidian_to_python_format_def format_mapping_def)
  have res: "\<forall>i < length (obsidian_to_python_format w ''YYYY-MM-DD'').
            obsidian_to_python_format w ''YYYY-MM-DD'' ! i \<in> {CHR ''Y'', CHR ''M'', CHR ''D''} \<longrightarrow>
            0 < i \<and> obsidian_to_python_format w ''YYYY-MM-DD'' ! (i - 1) = CHR ''%''"
    unfolding ex by (auto simp: nth_Cons' less_Suc_eq numeral_eq_Suc split: if_splits)
  show ?thesis
    using fold ord idx ctx ex ex2 ex3 res by (intro conjI)
qed

theorem obsidian_to_python_format_longest_first_witness:
  "set ''on '' \<inter> token_letters = {} \<and> set '' at noon'' \<inter> token_letters = {}
   \<and> (''MMMM'', ''%B'') \<in> set (format_mapping False)
   \<and> obsidian_to_python_format False (''on '' @ ''MMMM'' @ '' at noon'') = ''on '' @ ''%B'' @ '' at noon''"
proof -
  have a: "set ''on '' \<inter> token_letters = {} \<and> set '' at noon'' \<inter> token_letters = {}"
    by (simp add: token_letters_def)
  have b: "(''MMMM'', ''%B'') \<in> set (format_mapping False)"
    by (simp add: format_mapping_def)
  have c: "\<forall>(token, code)\<in>set (format_mapping False).
       obsidian_to_python_format False (''on '' @ token @ '' at noon'') = ''on '' @ code @ '' at noon''"
    using obsidian_to_python_format_longest_first [of False] a by blast
  have d: "obsidian_to_python_format False (''on '' @ ''MMMM'' @ '' at noon'')
        = ''on '' @ ''%B'' @ '' at noon''"
    using c b by blast
  show ?thesis
    using a b d by (intro conjI) simp_all
qed

section \<open>The scan as a fold over the detected vault roots\<close>

lemma reach_refl: "descends n [] \<Longrightarrow> reach n rt rt"
  unfolding reach_def by (rule exI [of _ "[]"]) simp

lemma reach_step:
  assumes "kept d" and "(d, n) \<in> set es" and "reach n (path_join rt d) p"
  shows "reach (Dir True es) rt p"
proof -
  from assms(3) obtain comps where c: "descends n comps"
    and p: "p = foldl path_join (path_join rt d) comps" and k: "\<forall>c\<in>set comps. kept c"
    unfolding reach_def by blast
  have "descends (Dir True es) (d # comps)"
    using assms(2) c by auto
  moreover have "p = foldl path_join rt (d # comps)"
    using p by simp
  moreover have "\<forall>c\<in>set (d # comps). kept c"
    using assms(1) k by simp
  ultimately show ?thesis
    unfolding reach_def by blast
qed

lemma visit_fst: "fst (visit regs rt es vs) = (if has_marker es then record_vault regs vs rt else vs)"
  by (simp add: visit_def has_marker_def record_vault_def Let_def)

lemma dirs_remove_absent: "name \<notin> fst ` set ds \<Longrightarrow> dirs_remove name ds = Inl ValueError"
  by (induction ds) auto

lemma visit_snd:
  "snd (visit regs rt es vs) =
     (if has_marker es then Inl ValueError
      else Inr (filter (\<lambda>(d, n). kept d) (filter (\<lambda>(d, n). is_dir n) es)))"
proof -
  have "''.obsidian'' \<notin> fst ` set (filter (\<lambda>(d, n). kept d) (filter (\<lambda>(d, n). is_dir n) es))"
    by (auto simp: kept_def startswith_def)
  then show ?thesis
    by (simp add: visit_def has_marker_def Let_def dirs_remove_absent kept_def [abs_def])
qed

lemma scan_walk_Dir:
  "scan_walk regs rt (Dir r es) vs =
     (if \<not> r then (vs, None)
      else if has_marker es then (record_vault regs vs rt, Some ValueError)
      else scan_dirs regs rt (filter (\<lambda>(d, n). kept d) (filter (\<lambda>(d, n). is_dir n) es)) vs)"
proof -
  have "visit regs rt es vs =
          (if has_marker es then record_vault regs vs rt else vs,
           if has_marker es then Inl ValueError
           else Inr (filter (\<lambda>(d, n). kept d) (filter (\<lambda>(d, n). is_dir n) es)))"
    by (simp add: prod_eq_iff visit_fst visit_snd)
  then show ?thesis
    by simp
qed

lemma scan_dirs_folds:
  assumes "\<forall>(d, n)\<in>set ds. \<forall>rt'. folds regs (reach n rt') (scan_walk regs rt' n)"
  shows "folds regs (\<lambda>p. \<exists>(d, n)\<in>set ds. reach n (path_join rt d) p) (scan_dirs regs rt ds)"
  using assms
proof (induction ds)
  case Nil
  show ?case
    unfolding folds_def by (rule exI [of _ "[]"], rule exI [of _ None]) simp
next
  case (Cons a ds)
  obtain d n where a: "a = (d, n)" by (cases a)
  from Cons.prems a have fn: "folds regs (reach n (path_join rt d)) (scan_walk regs (path_join rt d) n)"
    by auto
  from Cons have "folds regs (\<lambda>p. \<exists>(d, n)\<in>set ds. reach n (path_join rt d) p) (scan_dirs regs rt ds)"
    by simp
  then obtain ps2 e2 where r2: "\<forall>vs. scan_dirs regs rt ds vs = (foldl (record_vault regs) vs ps2, e2)"
    and p2: "\<forall>p\<in>set ps2. \<exists>(d, n)\<in>set ds. reach n (path_join rt d) p"
    unfolding folds_def by blast
  from fn obtain ps1 e1 where r1: "\<forall>vs. scan_walk regs (path_join rt d) n vs = (foldl (record_vault regs) vs ps1, e1)"
    and p1: "\<forall>p\<in>set ps1. reach n (path_join rt d) p"
    unfolding folds_def by blast
  from p1 a have p1': "\<forall>p\<in>set ps1. \<exists>(d, n)\<in>set (a # ds). reach n (path_join rt d) p"
    by auto
  from p2 have p2': "\<forall>p\<in>set ps2. \<exists>(d, n)\<in>set (a # ds). reach n (path_join rt d) p"
    by auto
  show ?case
  proof (cases e1)
    case None
    have "\<forall>vs. scan_dirs regs rt (a # ds) vs = (foldl (record_vault regs) vs (ps1 @ ps2), e2)"
      using a r1 r2 None by simp
    moreover have "\<forall>p\<in>set (ps1 @ ps2). \<exists>(d, n)\<in>set (a # ds). reach n (path_join rt d) p"
      using p1' p2' by (simp add: ball_Un)
    ultimately show ?thesis
      unfolding folds_def by blast
  next
    case (Some e)
    have "\<forall>vs. scan_dirs regs rt (a # ds) vs = (foldl (record_vault regs) vs ps1, Some e)"
      using a r1 Some by simp
    then show ?thesis
      unfolding folds_def using p1' by blast
  qed
qed

lemma folds_mono: "folds regs R f \<Longrightarrow> (\<And>p. R p \<Longrightarrow> S p) \<Longrightarrow> folds regs S f"
  unfolding folds_def by blast

lemma scan_walk_folds: "folds regs (reach n rt) (scan_walk regs rt n)"
proof (induction n arbitrary: rt)
  case (File c m)
  show ?case
    unfolding folds_def by (rule exI [of _ "[]"], rule exI [of _ None]) simp
next
  case (Dir r es)
  show ?case
  proof (cases "\<not> r")
    case True
    then show ?thesis
      unfolding folds_def by (intro exI [of _ "[]"] exI [of _ None]) (simp add: scan_walk_Dir del: scan_walk.simps)
  next
    case False
    show ?thesis
    proof (cases "has_marker es")
      case True
      have "\<forall>vs. scan_walk regs rt (Dir r es) vs = (foldl (record_vault regs) vs [rt], Some ValueError)"
        using False True by (simp add: scan_walk_Dir del: scan_walk.simps)
      moreover have "reach (Dir r es) rt rt"
        using False True by (intro reach_refl) simp
      ultimately show ?thesis
        unfolding folds_def
        by (intro exI [of _ "[rt]"] exI [of _ "Some ValueError"]) simp
    next
      case nm: False
      let ?ds = "filter (\<lambda>(d, n). kept d) (filter (\<lambda>(d, n). is_dir n) es)"
      have "\<forall>(d, n)\<in>set ?ds. \<forall>rt'. folds regs (reach n rt') (scan_walk regs rt' n)"
        using Dir.IH by (auto simp: snds.simps)
      then have "folds regs (\<lambda>p. \<exists>(d, n)\<in>set ?ds. reach n (path_join rt d) p) (scan_dirs regs rt ?ds)"
        by (rule scan_dirs_folds)
      then have "folds regs (reach (Dir r es) rt) (scan_dirs regs rt ?ds)"
      proof (rule folds_mono)
        fix p
        assume "\<exists>(d, n)\<in>set ?ds. reach n (path_join rt d) p"
        then obtain d n where "(d, n) \<in> set es" "kept d" "reach n (path_join rt d) p"
          by auto
        then have "reach (Dir True es) rt p"
          by (intro reach_step [of d n es rt p])
        with False show "reach (Dir r es) rt p" by simp
      qed
      moreover have "scan_walk regs rt (Dir r es) = scan_dirs regs rt ?ds"
        using False nm by (auto simp: scan_walk_Dir simp del: scan_walk.simps)
      ultimately show ?thesis by simp
    qed
  qed
qed


lemma record_vault_paths: "v_path ` set (record_vault regs vs p) = insert p (v_path ` set vs)"
  by (auto simp: record_vault_def list_ex_iff)

lemma record_vault_distinct:
  "distinct (map v_path vs) \<Longrightarrow> distinct (map v_path (record_vault regs vs p))"
  by (auto simp: record_vault_def list_ex_iff)

lemma foldl_record_vault_paths:
  "v_path ` set (foldl (record_vault regs) vs ps) = v_path ` set vs \<union> set ps"
  by (induction ps arbitrary: vs) (auto simp: record_vault_paths)

lemma foldl_record_vault_distinct:
  "distinct (map v_path vs) \<Longrightarrow> distinct (map v_path (foldl (record_vault regs) vs ps))"
  by (induction ps arbitrary: vs) (auto simp: record_vault_distinct)

lemma scan_search_path_fold:
  "\<exists>ps. (\<forall>vs. scan_search_path t regs sp vs = foldl (record_vault regs) vs ps)
        \<and> (\<forall>p\<in>set ps. \<exists>n. resolve t sp = Some n \<and> reach n sp p)"
proof (cases "resolve t sp")
  case None
  then show ?thesis
    by (intro exI [of _ "[]"]) (simp add: scan_search_path_def)
next
  case (Some n)
  from scan_walk_folds [of regs n sp]
  obtain ps e where "\<forall>vs. scan_walk regs sp n vs = (foldl (record_vault regs) vs ps, e)"
    and "\<forall>p\<in>set ps. reach n sp p"
    unfolding folds_def by blast
  then show ?thesis
    using Some by (intro exI [of _ ps]) (simp add: scan_search_path_def)
qed

lemma scan_search_path_paths:
  "v_path ` set (scan_search_path t regs sp vs)
     = v_path ` set vs \<union> v_path ` set (scan_search_path t regs sp [])"
proof -
  obtain ps where "\<forall>vs. scan_search_path t regs sp vs = foldl (record_vault regs) vs ps"
    using scan_search_path_fold by blast
  then show ?thesis
    by (simp add: foldl_record_vault_paths)
qed

lemma scan_search_path_distinct:
  "distinct (map v_path vs) \<Longrightarrow> distinct (map v_path (scan_search_path t regs sp vs))"
proof -
  obtain ps where "\<forall>vs. scan_search_path t regs sp vs = foldl (record_vault regs) vs ps"
    using scan_search_path_fold by blast
  then show "distinct (map v_path vs) \<Longrightarrow> distinct (map v_path (scan_search_path t regs sp vs))"
    by (simp add: foldl_record_vault_distinct)
qed

lemma scan_search_path_reach:
  assumes "v \<in> set (scan_search_path t regs sp [])"
  shows "\<exists>n. resolve t sp = Some n \<and> reach n sp (v_path v)"
proof -
  obtain ps where f: "\<forall>vs. scan_search_path t regs sp vs = foldl (record_vault regs) vs ps"
    and r: "\<forall>p\<in>set ps. \<exists>n. resolve t sp = Some n \<and> reach n sp p"
    using scan_search_path_fold by blast
  from assms have "v_path v \<in> v_path ` set (scan_search_path t regs sp [])" by (rule imageI)
  then have "v_path v \<in> set ps"
    using f by (simp add: foldl_record_vault_paths)
  with r show ?thesis by blast
qed

lemma scan_all_paths:
  "v_path ` set (foldl (\<lambda>vaults search_path. scan_search_path t regs search_path vaults) vs sps)
     = v_path ` set vs \<union> (\<Union>sp\<in>set sps. v_path ` set (scan_search_path t regs sp []))"
proof (induction sps arbitrary: vs)
  case Nil
  show ?case by simp
next
  case (Cons sp sps)
  show ?case
    using scan_search_path_paths [of t regs sp vs]
    by (simp add: Cons.IH Un_assoc)
qed

lemma scan_all_distinct:
  "distinct (map v_path vs) \<Longrightarrow>
   distinct (map v_path
     (foldl (\<lambda>vaults search_path. scan_search_path t regs search_path vaults) vs sps))"
  by (induction sps arbitrary: vs) (simp_all add: scan_search_path_distinct)

lemma scan_vaults_paths:
  "v_path ` set (scan_vaults env)
     = (\<Union>sp\<in>set (search_paths env).
          v_path ` set (scan_search_path (env_tree env) (registered_vaults env) sp []))"
  by (simp add: scan_vaults_def scan_all_paths)

lemma scan_vaults_distinct: "distinct (map v_path (scan_vaults env))"
  by (simp add: scan_vaults_def scan_all_distinct)

lemma distinct_map_count_one:
  "distinct (map f xs) \<Longrightarrow> x \<in> f ` set xs \<Longrightarrow> length (filter (\<lambda>v. f v = x) xs) = 1"
proof (induction xs)
  case Nil
  then show ?case by simp
next
  case (Cons a xs)
  show ?case
  proof (cases "f a = x")
    case True
    with Cons.prems have "\<forall>v\<in>set xs. f v \<noteq> x" by (auto simp: image_iff)
    then have "filter (\<lambda>v. f v = x) xs = []" by (simp add: filter_empty_conv)
    with True show ?thesis by simp
  next
    case False
    with Cons show ?thesis by auto
  qed
qed

lemma find_vaults_fst: "fst (find_vaults self env now) = scan_vaults env"
  by (simp add: find_vaults_def Let_def)


section \<open>Discovery stops at the first vault of a search path\<close>

lemma scan_walk_stops_at_vault:
  "has_marker es \<Longrightarrow>
   scan_walk regs rt (Dir True es) vs = (record_vault regs vs rt, Some ValueError)"
  by (simp add: scan_walk_Dir del: scan_walk.simps)

text \<open>
  Claim C1, at the input that decides it. The home directory \<^verbatim>\<open>/home\<close> is the only search
  path and holds the two vaults \<^verbatim>\<open>/home/a\<close> and \<^verbatim>\<open>/home/b\<close>. The names that start with
  a dot were filtered out of \<^verbatim>\<open>dirs\<close>, so \<^verbatim>\<open>dirs.remove('.obsidian')\<close> raises
  \<^verbatim>\<open>ValueError\<close> when the first vault has been recorded, and the handler goes on to the
  next search path: \<^verbatim>\<open>/home/b\<close> is not recorded.
\<close>

theorem find_vaults_stops_at_first_vault:
  "search_paths (example_env two_vaults []) = [''/home'']
   \<and> resolve two_vaults ''/home/a/.obsidian'' = Some (Dir True [])
   \<and> resolve two_vaults ''/home/b/.obsidian'' = Some (Dir True [])
   \<and> map v_path (fst (find_vaults blank (example_env two_vaults []) 0)) = [''/home/a'']"
  by code_simp

theorem find_vaults_stops_at_first_vault_witness:
  "''/home/b'' \<notin> v_path ` set (fst (find_vaults blank (example_env two_vaults []) 0))"
proof -
  have "map v_path (fst (find_vaults blank (example_env two_vaults []) 0)) = [''/home/a'']"
    using find_vaults_stops_at_first_vault by (elim conjE)
  then have "v_path ` set (fst (find_vaults blank (example_env two_vaults []) 0)) = {''/home/a''}"
    by (metis list.set_map list.simps(15) set_empty2)
  then show ?thesis by simp
qed

section \<open>Root paths of the discovered vaults are unique\<close>

text \<open>A search path that is itself a vault root is recorded by its own walk.\<close>

lemma scan_search_path_root_vault:
  assumes "resolve t sp = Some (Dir True es)" and "has_marker es"
  shows "sp \<in> v_path ` set (scan_search_path t regs sp [])"
  using assms
  by (simp add: scan_search_path_def scan_walk_Dir record_vault_def del: scan_walk.simps)

text \<open>
  Claim C7, as the code has it. The check before \<^verbatim>\<open>vaults.append\<close> compares the paths as
  strings, so the paths of the records that \<^verbatim>\<open>find_vaults\<close> returns are pairwise
  different strings. The paths of the result are exactly the paths that the walks of the
  search paths record, and each of them is in the result exactly once, however many walks
  record it; in particular a search path that is itself a vault root is in the result
  exactly once, under its own spelling.
\<close>

theorem find_vaults_paths_unique:
  "distinct (map v_path (fst (find_vaults self env now)))
   \<and> v_path ` set (fst (find_vaults self env now))
       = (\<Union>sp\<in>set (search_paths env).
            v_path ` set (scan_search_path (env_tree env) (registered_vaults env) sp []))
   \<and> (\<forall>sp p.
        sp \<in> set (search_paths env)
        \<and> p \<in> v_path ` set (scan_search_path (env_tree env) (registered_vaults env) sp [])
        \<longrightarrow> length (filter (\<lambda>v. v_path v = p) (fst (find_vaults self env now))) = 1)
   \<and> (\<forall>sp es.
        sp \<in> set (search_paths env) \<and> resolve (env_tree env) sp = Some (Dir True es)
        \<and> has_marker es
        \<longrightarrow> length (filter (\<lambda>v. v_path v = sp) (fst (find_vaults self env now))) = 1)"
proof -
  have d: "distinct (map v_path (fst (find_vaults self env now)))"
    by (simp add: find_vaults_fst scan_vaults_distinct)
  have u: "v_path ` set (fst (find_vaults self env now))
       = (\<Union>sp\<in>set (search_paths env).
            v_path ` set (scan_search_path (env_tree env) (registered_vaults env) sp []))"
    unfolding find_vaults_fst by (rule scan_vaults_paths)
  have "\<forall>sp p. sp \<in> set (search_paths env)
        \<and> p \<in> v_path ` set (scan_search_path (env_tree env) (registered_vaults env) sp [])
        \<longrightarrow> p \<in> v_path ` set (fst (find_vaults self env now))"
    unfolding u by blast
  then have c: "\<forall>sp p. sp \<in> set (search_paths env)
        \<and> p \<in> v_path ` set (scan_search_path (env_tree env) (registered_vaults env) sp [])
        \<longrightarrow> length (filter (\<lambda>v. v_path v = p) (fst (find_vaults self env now))) = 1"
    using distinct_map_count_one [OF d] by blast
  have r: "\<forall>sp es.
        sp \<in> set (search_paths env) \<and> resolve (env_tree env) sp = Some (Dir True es)
        \<and> has_marker es
        \<longrightarrow> length (filter (\<lambda>v. v_path v = sp) (fst (find_vaults self env now))) = 1"
  proof (intro allI impI, elim conjE)
    fix sp es
    assume sp: "sp \<in> set (search_paths env)"
      and rs: "resolve (env_tree env) sp = Some (Dir True es)" and hm: "has_marker es"
    have "sp \<in> v_path ` set (scan_search_path (env_tree env) (registered_vaults env) sp [])"
      using rs hm by (rule scan_search_path_root_vault)
    with sp c show "length (filter (\<lambda>v. v_path v = sp) (fst (find_vaults self env now))) = 1"
      by blast
  qed
  show ?thesis
    using d u c r by (intro conjI)
qed


theorem find_vaults_paths_unique_witness:
  "''/home/Documents'' \<in> set (search_paths (example_env documents_vault []))
   \<and> ''/home'' \<in> set (search_paths (example_env documents_vault []))
   \<and> ''/home/Documents'' \<noteq> ''/home''
   \<and> ''/home/Documents/v'' \<in> v_path ` set (scan_search_path documents_vault [] ''/home/Documents'' [])
   \<and> ''/home/Documents/v'' \<in> v_path ` set (scan_search_path documents_vault [] ''/home'' [])
   \<and> length (filter (\<lambda>v. v_path v = ''/home/Documents/v'')
        (fst (find_vaults blank (example_env documents_vault []) 0))) = 1"
proof -
  let ?env = "example_env documents_vault []"
  have tr: "env_tree ?env = documents_vault" and rv: "registered_vaults ?env = []"
    by (simp_all add: example_env_def)
  have a: "''/home/Documents'' \<in> set (search_paths ?env)"
    by code_simp
  have b: "''/home'' \<in> set (search_paths ?env)"
    by code_simp
  have c: "''/home/Documents'' \<noteq> ''/home''"
    by simp
  have d: "''/home/Documents/v'' \<in> v_path ` set (scan_search_path documents_vault [] ''/home/Documents'' [])"
    by code_simp
  have e: "''/home/Documents/v'' \<in> v_path ` set (scan_search_path documents_vault [] ''/home'' [])"
    by code_simp
  have "length (filter (\<lambda>v. v_path v = ''/home/Documents/v'')
        (fst (find_vaults blank ?env 0))) = 1"
    using find_vaults_paths_unique [of blank ?env 0, THEN conjunct2, THEN conjunct2,
        THEN conjunct1, rule_format, of "''/home''" "''/home/Documents/v''"] b e
    unfolding tr rv by blast
  with a b c d e show ?thesis
    by (intro conjI)
qed

text \<open>
  The claim as it is written fails where one directory has two spellings, since nothing in
  the code normalises a path. The vault \<^verbatim>\<open>/home/a\<close> is registered as \<^verbatim>\<open>/home/a/\<close>:
  the walk of the search path \<^verbatim>\<open>/home\<close> records it as \<^verbatim>\<open>/home/a\<close>, the walk of the
  search path \<^verbatim>\<open>/home/a/\<close> as \<^verbatim>\<open>/home/a/\<close>, and the result has two records for the
  one directory that both spellings name.
\<close>

theorem find_vaults_two_spellings_counterexample:
  "search_paths slash_env = [''/home'', ''/home/a/'']
   \<and> ''/home'' \<noteq> ''/home/a/''
   \<and> map v_path (fst (find_vaults blank slash_env 0)) = [''/home/a'', ''/home/a/'']
   \<and> map path_components (map v_path (fst (find_vaults blank slash_env 0)))
       = [[''home'', ''a''], [''home'', ''a'']]
   \<and> resolve (env_tree slash_env) ''/home/a'' = resolve (env_tree slash_env) ''/home/a/''"
  by code_simp

text \<open>
  Whether a vault below two search paths is recorded at all is the matter of the section
  before: each walk stops at its first vault, so the second vault of \<^verbatim>\<open>/home/Documents\<close>
  is recorded by neither walk.
\<close>

lemma find_vaults_second_vault_missing:
  "search_paths (example_env documents_two_vaults []) = [''/home/Documents'', ''/home'']
   \<and> resolve documents_two_vaults ''/home/Documents/v2/.obsidian'' = Some (Dir True [])
   \<and> map v_path (fst (find_vaults blank (example_env documents_two_vaults []) 0))
       = [''/home/Documents/v1'']"
  by code_simp

section \<open>Discovery does not descend into hidden and deny-listed directories\<close>

text \<open>
  A path joined with entry names has these names as its last parts, so it is joined from
  one list of entry names only.
\<close>

lemma split_on_snoc_sep: "split_on sep (a @ [sep]) = split_on sep a @ [[]]"
proof (induction a)
  case Nil
  show ?case by simp
next
  case (Cons c a)
  then show ?case
    using split_on_not_Nil [of sep a]
    by (cases "split_on sep a") auto
qed

lemma parts_path_join:
  assumes "wf_name c"
  shows "filter (\<lambda>x. x \<noteq> []) (split_on (CHR ''/'') (path_join a c))
       = filter (\<lambda>x. x \<noteq> []) (split_on (CHR ''/'') a) @ [c]"
proof -
  from assms have ne: "c \<noteq> []" and ns: "CHR ''/'' \<notin> set c"
    by (simp_all add: wf_name_def)
  from ne ns have nst: "\<not> startswith c ''/''"
    by (cases c) (auto simp: startswith_def)
  show ?thesis
  proof (cases "a = []")
    case True
    then show ?thesis
      using nst ne split_on_append_no_sep [OF ns, of "[]"]
      by (simp add: path_join_def)
  next
    case False
    show ?thesis
    proof (cases "endswith a ''/''")
      case True
      then obtain a' where a': "a = a' @ ''/''"
        using False by (metis append_take_drop_id endswith_def)
      have "split_on (CHR ''/'') (a @ c)
          = butlast (split_on (CHR ''/'') a) @ [last (split_on (CHR ''/'') a) @ c]"
        by (rule split_on_append_no_sep [OF ns])
      then show ?thesis
        using True nst ne by (simp add: path_join_def a' split_on_snoc_sep)
    next
      case ne': False
      have "split_on (CHR ''/'') ((a @ ''/'') @ c)
          = butlast (split_on (CHR ''/'') (a @ ''/'')) @ [last (split_on (CHR ''/'') (a @ ''/'')) @ c]"
        by (rule split_on_append_no_sep [OF ns])
      then show ?thesis
        using ne' False nst ne by (simp add: path_join_def split_on_snoc_sep)
    qed
  qed
qed

lemma parts_foldl_path_join:
  "\<forall>c\<in>set comps. wf_name c \<Longrightarrow>
   filter (\<lambda>x. x \<noteq> []) (split_on (CHR ''/'') (foldl path_join a comps))
     = filter (\<lambda>x. x \<noteq> []) (split_on (CHR ''/'') a) @ comps"
  by (induction comps arbitrary: a) (simp_all add: parts_path_join)

lemma foldl_path_join_inj:
  assumes "\<forall>c\<in>set cs. wf_name c" and "\<forall>c\<in>set ds. wf_name c"
    and "foldl path_join a cs = foldl path_join a ds"
  shows "cs = ds"
proof -
  let ?parts = "\<lambda>p. filter (\<lambda>x. x \<noteq> []) (split_on (CHR ''/'') p)"
  have "?parts a @ cs = ?parts (foldl path_join a cs)"
    by (rule parts_foldl_path_join [OF assms(1), symmetric])
  also have "\<dots> = ?parts (foldl path_join a ds)"
    by (simp only: assms(3))
  also have "\<dots> = ?parts a @ ds"
    by (rule parts_foldl_path_join [OF assms(2)])
  finally show ?thesis
    by (simp only: same_append_eq)
qed

lemma descends_wf: "wf_tree n \<Longrightarrow> descends n comps \<Longrightarrow> \<forall>c\<in>set comps. wf_name c"
proof (induction n comps rule: descends.induct)
  case (1 c m comps)
  then show ?case by simp
next
  case (2 r es)
  show ?case by simp
next
  case (3 r es c comps)
  from "3.prems"(2) obtain n where m: "(c, n) \<in> set es" and d: "descends n comps"
    by auto
  from "3.prems"(1) m have "wf_name c" and "wf_tree n"
    by auto
  with "3.IH" [of "(c, n)" c n] m d show ?case
    by simp
qed

lemma resolve_from_wf:
  "wf_tree n \<Longrightarrow> \<forall>m\<in>set up. wf_tree m \<Longrightarrow> resolve_from n up cs = Some n' \<Longrightarrow> wf_tree n'"
proof (induction n up cs rule: resolve_from.induct)
  case (1 n up)
  then show ?case by simp
next
  case (2 n up c cs)
  show ?case
  proof (cases "c = ''..''")
    case True
    show ?thesis
    proof (cases up)
      case Nil
      with 2 True show ?thesis by (simp split: if_splits)
    next
      case (Cons m up')
      with 2 True show ?thesis by (simp split: if_splits)
    qed
  next
    case False
    show ?thesis
    proof (cases n)
      case (File x y)
      with "2.prems" False show ?thesis by simp
    next
      case (Dir r es)
      with "2.prems"(3) False obtain k where k: "map_of es c = Some k"
        and rk: "resolve_from k (n # up) cs = Some n'"
        by (auto split: option.splits)
      from k have "(c, k) \<in> set es" by (rule map_of_SomeD)
      with "2.prems"(1) Dir have "wf_tree k" by auto
      with "2.IH"(3) [OF False Dir k] "2.prems" rk show ?thesis
        by simp
    qed
  qed
qed

lemma resolve_wf: "wf_tree t \<Longrightarrow> resolve t sp = Some n \<Longrightarrow> wf_tree n"
  using resolve_from_wf [of t "[]" "path_components sp" n]
  by (simp add: resolve_def split: if_splits)


text \<open>
  A vault in a hidden directory of the only search path is not returned when it is not
  registered.
\<close>

lemma find_vaults_hidden_unregistered:
  "search_paths (example_env hidden_vault []) = [''/home'']
   \<and> resolve hidden_vault ''/home/.secret/v/.obsidian'' = Some (Dir True [])
   \<and> fst (find_vaults blank (example_env hidden_vault []) 0) = []"
  by code_simp

text \<open>
  Claim C10, as the code has it. Every vault that \<^verbatim>\<open>find_vaults\<close> returns is recorded by
  the walk of one of the search paths, and from the directory of that search path a chain
  of entries of the tree, none of them hidden or deny-listed (the vault directory
  included), leads to the marker directory; the path of the vault is the search path joined
  with the names of the chain. In a tree whose entry names are not empty and have no
  slash, the walk of a search path records no path that is the search path joined with
  entry names one of which is hidden or deny-listed: a vault below such a directory of the
  search path is invisible to the walk of that search path.
\<close>

theorem find_vaults_reached_through_kept_directories:
  "(\<forall>v\<in>set (fst (find_vaults self env now)).
      \<exists>sp\<in>set (search_paths env).
         v_path v \<in> v_path ` set (scan_search_path (env_tree env) (registered_vaults env) sp [])
         \<and> (\<exists>n comps.
               resolve (env_tree env) sp = Some n \<and> descends n comps
               \<and> v_path v = foldl path_join sp comps
               \<and> (\<forall>c\<in>set comps. \<not> startswith c ''.'' \<and> c \<notin> set deny_list)))
   \<and> (wf_tree (env_tree env) \<longrightarrow>
        (\<forall>sp. \<forall>p\<in>v_path ` set (scan_search_path (env_tree env) (registered_vaults env) sp []).
           \<forall>comps. (\<forall>c\<in>set comps. wf_name c) \<and> p = foldl path_join sp comps \<longrightarrow>
             (\<forall>c\<in>set comps. \<not> startswith c ''.'' \<and> c \<notin> set deny_list)))"
proof (rule conjI)
  show "\<forall>v\<in>set (fst (find_vaults self env now)).
      \<exists>sp\<in>set (search_paths env).
         v_path v \<in> v_path ` set (scan_search_path (env_tree env) (registered_vaults env) sp [])
         \<and> (\<exists>n comps.
               resolve (env_tree env) sp = Some n \<and> descends n comps
               \<and> v_path v = foldl path_join sp comps
               \<and> (\<forall>c\<in>set comps. \<not> startswith c ''.'' \<and> c \<notin> set deny_list))"
  proof (rule ballI)
    fix v
    assume "v \<in> set (fst (find_vaults self env now))"
    then have "v_path v \<in> v_path ` set (scan_vaults env)"
      by (simp add: find_vaults_fst)
    then obtain sp w where sp: "sp \<in> set (search_paths env)"
      and w: "w \<in> set (scan_search_path (env_tree env) (registered_vaults env) sp [])"
      and eq: "v_path v = v_path w"
      unfolding scan_vaults_paths by auto
    from w eq
    have m: "v_path v \<in> v_path ` set (scan_search_path (env_tree env) (registered_vaults env) sp [])"
      by simp
    from w obtain n where n: "resolve (env_tree env) sp = Some n" and "reach n sp (v_path w)"
      using scan_search_path_reach by blast
    then obtain comps where "descends n comps" and "v_path v = foldl path_join sp comps"
      and "\<forall>c\<in>set comps. \<not> startswith c ''.'' \<and> c \<notin> set deny_list"
      unfolding reach_def kept_def eq by blast
    with n have "\<exists>n comps.
               resolve (env_tree env) sp = Some n \<and> descends n comps
               \<and> v_path v = foldl path_join sp comps
               \<and> (\<forall>c\<in>set comps. \<not> startswith c ''.'' \<and> c \<notin> set deny_list)"
      by blast
    with sp m show "\<exists>sp\<in>set (search_paths env).
         v_path v \<in> v_path ` set (scan_search_path (env_tree env) (registered_vaults env) sp [])
         \<and> (\<exists>n comps.
               resolve (env_tree env) sp = Some n \<and> descends n comps
               \<and> v_path v = foldl path_join sp comps
               \<and> (\<forall>c\<in>set comps. \<not> startswith c ''.'' \<and> c \<notin> set deny_list))"
      by blast
  qed
next
  show "wf_tree (env_tree env) \<longrightarrow>
        (\<forall>sp. \<forall>p\<in>v_path ` set (scan_search_path (env_tree env) (registered_vaults env) sp []).
           \<forall>comps. (\<forall>c\<in>set comps. wf_name c) \<and> p = foldl path_join sp comps \<longrightarrow>
             (\<forall>c\<in>set comps. \<not> startswith c ''.'' \<and> c \<notin> set deny_list))"
  proof (rule impI, rule allI, rule ballI, rule allI, rule impI)
    fix sp p comps
    assume wf: "wf_tree (env_tree env)"
      and v: "p \<in> v_path ` set (scan_search_path (env_tree env) (registered_vaults env) sp [])"
      and c: "(\<forall>c\<in>set comps. wf_name c) \<and> p = foldl path_join sp comps"
    from v obtain n where n: "resolve (env_tree env) sp = Some n" and "reach n sp p"
      using scan_search_path_reach by blast
    then obtain cs where d: "descends n cs" and p: "p = foldl path_join sp cs"
      and k: "\<forall>c\<in>set cs. kept c"
      unfolding reach_def by blast
    from wf n have "wf_tree n"
      by (rule resolve_wf)
    then have wcs: "\<forall>c\<in>set cs. wf_name c"
      using d by (rule descends_wf)
    from c have wcomps: "\<forall>c\<in>set comps. wf_name c"
      by (rule conjunct1)
    from c p have "foldl path_join sp cs = foldl path_join sp comps"
      by simp
    with wcs wcomps have "cs = comps"
      by (rule foldl_path_join_inj)
    with k show "\<forall>c\<in>set comps. \<not> startswith c ''.'' \<and> c \<notin> set deny_list"
      by (simp add: kept_def)
  qed
qed

theorem find_vaults_reached_through_kept_directories_witness:
  "hidden_record \<in> set (fst (find_vaults blank hidden_env 0))
   \<and> (\<exists>sp\<in>set (search_paths hidden_env).
         v_path hidden_record
           \<in> v_path ` set (scan_search_path (env_tree hidden_env) (registered_vaults hidden_env) sp [])
         \<and> (\<exists>n comps.
               resolve (env_tree hidden_env) sp = Some n \<and> descends n comps
               \<and> v_path hidden_record = foldl path_join sp comps
               \<and> (\<forall>c\<in>set comps. \<not> startswith c ''.'' \<and> c \<notin> set deny_list)))
   \<and> wf_tree documents_vault
   \<and> ''/home/Documents/v'' \<in> v_path ` set (scan_search_path documents_vault [] ''/home'' [])
   \<and> wf_name ''Documents'' \<and> wf_name ''v''
   \<and> ''/home/Documents/v'' = foldl path_join ''/home'' [''Documents'', ''v'']
   \<and> \<not> startswith ''Documents'' ''.'' \<and> ''Documents'' \<notin> set deny_list
   \<and> \<not> startswith ''v'' ''.'' \<and> ''v'' \<notin> set deny_list"
proof -
  let ?env = "example_env documents_vault []"
  have tr: "env_tree ?env = documents_vault" and rv: "registered_vaults ?env = []"
    by (simp_all add: example_env_def)
  have a: "hidden_record \<in> set (fst (find_vaults blank hidden_env 0))"
    by code_simp
  have b: "\<exists>sp\<in>set (search_paths hidden_env).
         v_path hidden_record
           \<in> v_path ` set (scan_search_path (env_tree hidden_env) (registered_vaults hidden_env) sp [])
         \<and> (\<exists>n comps.
               resolve (env_tree hidden_env) sp = Some n \<and> descends n comps
               \<and> v_path hidden_record = foldl path_join sp comps
               \<and> (\<forall>c\<in>set comps. \<not> startswith c ''.'' \<and> c \<notin> set deny_list))"
    using find_vaults_reached_through_kept_directories [of blank hidden_env 0, THEN conjunct1,
        THEN bspec, OF a] .
  have c: "wf_tree documents_vault"
    by code_simp
  have d: "''/home/Documents/v'' \<in> v_path ` set (scan_search_path documents_vault [] ''/home'' [])"
    by code_simp
  have e: "\<forall>c\<in>set [''Documents'', ''v'']. wf_name c"
    by (simp add: wf_name_def)
  have f: "''/home/Documents/v'' = foldl path_join ''/home'' [''Documents'', ''v'']"
    by code_simp
  have g: "\<forall>c\<in>set [''Documents'', ''v'']. \<not> startswith c ''.'' \<and> c \<notin> set deny_list"
    using find_vaults_reached_through_kept_directories [of blank ?env 0, THEN conjunct2,
        rule_format, of "''/home/Documents/v''" "''/home''" "[''Documents'', ''v'']"] c d e f
    unfolding tr rv by blast
  have e': "wf_name ''Documents'' \<and> wf_name ''v''"
    using e by simp
  have g': "\<not> startswith ''Documents'' ''.'' \<and> ''Documents'' \<notin> set deny_list
      \<and> \<not> startswith ''v'' ''.'' \<and> ''v'' \<notin> set deny_list"
    using g by simp
  show ?thesis
    using a b c d e' f g' by (intro conjI) (elim conjE, assumption)+
qed

text \<open>
  The claim as it is written fails where a search path lies inside a hidden directory of
  another search path, as a registered vault may: \<^verbatim>\<open>/home/.secret/v\<close> is registered, so it
  is a search path of its own, and it is returned although it lies below the hidden
  directory \<^verbatim>\<open>.secret\<close> of the search path \<^verbatim>\<open>/home\<close>.
\<close>

theorem find_vaults_hidden_registered_counterexample:
  "search_paths hidden_env = [''/home'', ''/home/.secret/v'']
   \<and> map v_path (fst (find_vaults blank hidden_env 0)) = [''/home/.secret/v'']
   \<and> foldl path_join ''/home'' [''.secret'', ''v''] = ''/home/.secret/v''
   \<and> startswith ''.secret'' ''.''"
  by code_simp

section \<open>The cache of discovered vaults\<close>

lemma refresh_vaults_cache_fresh:
  "current_time - cache_timestamp self \<le> cache_duration self \<Longrightarrow>
   refresh_vaults_cache self env current_time now = self"
  by (simp add: refresh_vaults_cache_def)

lemma refresh_vaults_cache_stale:
  "current_time - cache_timestamp self > cache_duration self \<Longrightarrow>
   refresh_vaults_cache self env current_time now =
     self\<lparr>vaults := scan_vaults env,
          vaults_cache := map (\<lambda>vault. (v_path vault, vault)) (scan_vaults env),
          cache_timestamp := now\<rparr>"
  by (simp add: refresh_vaults_cache_def find_vaults_def Let_def)

lemma init_cache_timestamp: "cache_timestamp (init env now) = 0"
  by (simp add: init_def find_vaults_def Let_def)

text \<open>
  Claim C5, at the input that decides it. \<^verbatim>\<open>__init__\<close> calls \<^verbatim>\<open>find_vaults\<close>, which
  caches the result of the scan and sets \<^verbatim>\<open>cache_timestamp\<close>, and only then assigns
  \<^verbatim>\<open>cache_timestamp = 0\<close> and an empty \<^verbatim>\<open>vaults_cache\<close>. The first scan, at time 1000,
  does not count: a refresh 10 seconds later, within the 300 seconds, scans again and
  returns the vault of the changed tree instead of the memoized one.
\<close>

theorem init_discards_scan_time:
  "cache_timestamp (init (example_env two_vaults []) 1000) = 0
   \<and> vaults_cache (init (example_env two_vaults []) 1000) = []
   \<and> map v_path (vaults (init (example_env two_vaults []) 1000)) = [''/home/a'']
   \<and> map v_path (vaults (refresh_vaults_cache (init (example_env two_vaults []) 1000)
        (example_env three_vaults []) 1010 1011)) = [''/home/c'']"
  by code_simp

section \<open>Previews of search results\<close>

lemma preview_of_first_line:
  "preview_of c =
     (let first = hd (split_on (CHR 0x0A) c)
      in if length first > 100 then take 100 first @ ''...'' else first)"
  using split_on_not_Nil [of "CHR 0x0A" c]
  by (cases "split_on (CHR 0x0A) c") (simp_all add: preview_of_def)

lemma preview_of_empty: "preview_of [] = []"
  by (simp add: preview_of_def)

lemma str_find_nonneg_iff: "(0 \<le> str_find s sub) = str_in sub s"
  by (induction s) (auto simp: Let_def)

lemma search_file_qualifies:
  "(search_file lower sf vp q rt (file, File (Some c) mt) \<noteq> []) =
     (endswith file ''.md''
      \<and> (str_in q (lower (slice_to file (- 3))) \<or> str_in q (lower c))
      \<and> sf mt \<noteq> None)"
  by (cases "sf mt") (simp_all add: search_file_def Let_def str_find_nonneg_iff)

lemma search_file_previews:
  "map h_preview (search_file lower sf vp q rt (file, File (Some c) mt)) = []
   \<or> map h_preview (search_file lower sf vp q rt (file, File (Some c) mt)) = [preview_of c]"
  by (cases "sf mt") (simp_all add: search_file_def Let_def)

text \<open>
  Claim C2, at the input that decides it. The note \<^verbatim>\<open>/v/sub/hello.md\<close> is empty and
  matches the query by its title. \<^verbatim>\<open>''.split('\n')\<close> is the list of one empty string,
  not the empty list, so the branch of the placeholder is never taken: the preview of the
  empty note is the empty string and not \<^verbatim>\<open>No preview available\<close>.
\<close>

theorem search_notes_empty_note_preview:
  "map (\<lambda>h. (h_path h, h_preview h))
     (search_notes ascii_lower example_vault example_strftime ''/v'' ''HELLO'' 1)
   = [(''/v/sub/hello.md'', [])]"
  by code_simp

section \<open>Ranking and truncation of search results\<close>

lemma search_file_hit:
  "search_file lower sf vp q rt e = (if qualifies lower sf q e then [hit_of sf vp rt e] else [])"
proof (cases e)
  case (Pair fname n)
  show ?thesis
  proof (cases n)
    case (Dir r es)
    with Pair show ?thesis by (simp add: search_file_def qualifies_def)
  next
    case (File content mt)
    show ?thesis
    proof (cases content)
      case None
      with Pair File show ?thesis by (simp add: search_file_def qualifies_def)
    next
      case (Some c)
      with Pair File show ?thesis
        by (cases "sf mt")
           (simp_all add: search_file_def qualifies_def hit_of_def Let_def str_find_nonneg_iff)
    qed
  qed
qed

lemma concat_map_if_filter:
  "concat (map (\<lambda>x. if P x then [f x] else []) xs) = map f (filter P xs)"
  by (induction xs) simp_all

lemma search_walk_note_files:
  "search_walk lw sf vp q rt n
     = concat (map (\<lambda>(rt', e). search_file lw sf vp q rt' e) (note_files rt n))"
  and "search_dirs lw sf vp q rt ds
     = concat (map (\<lambda>(rt', e). search_file lw sf vp q rt' e) (note_files_dirs rt ds))"
proof (induction lw sf vp q rt n and lw sf vp q rt ds rule: search_walk_search_dirs.induct)
  case (1 lw sf vp q rt c m)
  show ?case by simp
next
  case (2 lw sf vp q rt r es)
  show ?case
  proof (cases r)
    case False
    then show ?thesis by simp
  next
    case True
    have "concat (map (\<lambda>(rt', e). search_file lw sf vp q rt' e)
            (map (Pair rt) (filter (\<lambda>(f, n). \<not> is_dir n) es)))
        = concat (map (search_file lw sf vp q rt) (filter (\<lambda>(f, n). \<not> is_dir n) es))"
      by (simp add: comp_def)
    with True 2 show ?thesis
      by (simp add: Let_def)
  qed
next
  case (3 lw sf vp q rt)
  show ?case by simp
next
  case (4 lw sf vp q rt d n ds)
  then show ?case by simp
qed

lemma search_results_qualifying:
  "search_results lower fs sf vp q =
     (case resolve fs vp of
        None \<Rightarrow> []
      | Some n \<Rightarrow>
          map (\<lambda>(rt, e). hit_of sf vp rt e)
            (filter (\<lambda>(rt, e). qualifies lower sf q e) (note_files vp n)))"
proof (cases "resolve fs vp")
  case None
  then show ?thesis by (simp add: search_results_def)
next
  case (Some n)
  have "(\<lambda>(rt', e). search_file lower sf vp q rt' e)
      = (\<lambda>x. if (\<lambda>(rt, e). qualifies lower sf q e) x then [(\<lambda>(rt, e). hit_of sf vp rt e) x] else [])"
    by (auto simp: fun_eq_iff search_file_hit)
  then show ?thesis
    using Some by (simp add: search_results_def search_walk_note_files concat_map_if_filter)
qed


lemma search_notes_unfold:
  "0 \<le> limit \<Longrightarrow>
   search_notes lower fs sf vp query limit =
     take (nat limit)
       (sort_key (relevance_key lower (lower query)) (search_results lower fs sf vp (lower query)))"
  by (simp add: search_notes_def slice_to_def Let_def)

lemma sort_key_relevance_order:
  fixes lower :: "string \<Rightarrow> string" and q :: string and xs :: "hit list"
  assumes "i < j" and "j < length xs"
  defines "full \<equiv> sort_key (relevance_key lower q) xs"
  shows "(str_in q (lower (h_title (full ! j))) \<longrightarrow> str_in q (lower (h_title (full ! i))))
       \<and> (str_in q (lower (h_title (full ! j))) = str_in q (lower (h_title (full ! i)))
            \<longrightarrow> h_mtime (full ! j) \<le> h_mtime (full ! i))"
proof -
  have "sorted (map (relevance_key lower q) full)"
    by (simp add: full_def)
  moreover have "j < length full"
    using assms by (simp add: full_def)
  ultimately have "map (relevance_key lower q) full ! i \<le> map (relevance_key lower q) full ! j"
    using \<open>i < j\<close> by (metis length_map less_imp_le_nat sorted_nth_mono)
  then have "relevance_key lower q (full ! i) \<le> relevance_key lower q (full ! j)"
    using \<open>i < j\<close> \<open>j < length full\<close> by simp
  then show ?thesis
    by (auto simp: relevance_key_def split: if_splits)
qed

text \<open>
  Claim C3, for a limit that is not negative, and for every lowering of strings \<open>lower\<close>
  in the place of \<^verbatim>\<open>str.lower\<close>. The list that the walk collects holds one result for
  each qualifying file that the walk comes to, in the order of the walk. The result of
  \<^verbatim>\<open>search_notes\<close> is the first \<open>limit\<close> elements of a list \<open>full\<close> that holds exactly
  these results, in which a note whose title contains the query stands before every note
  that matches by its text only, notes of the same rank stand in descending order of
  modification time, and notes with the same key keep the order of the walk (the sort is
  stable). So the result has at most \<open>limit\<close> elements, and in it a title match precedes a
  content-only match whatever their modification times.
\<close>

theorem search_notes_ranked_then_truncated:
  fixes lower :: "string \<Rightarrow> string" and fs :: node and sf :: "real \<Rightarrow> string option"
    and vp query :: string and limit :: int
  assumes "0 \<le> limit"
  defines "q \<equiv> lower query"
  defines "res \<equiv> search_notes lower fs sf vp query limit"
  shows "search_results lower fs sf vp q =
           (case resolve fs vp of
              None \<Rightarrow> []
            | Some n \<Rightarrow>
                map (\<lambda>(rt, e). hit_of sf vp rt e)
                  (filter (\<lambda>(rt, e). qualifies lower sf q e) (note_files vp n)))
       \<and> (\<exists>full. res = take (nat limit) full
            \<and> mset full = mset (search_results lower fs sf vp q)
            \<and> (\<forall>i j. i < j \<and> j < length full \<longrightarrow>
                  (str_in q (lower (h_title (full ! j))) \<longrightarrow> str_in q (lower (h_title (full ! i))))
                \<and> (str_in q (lower (h_title (full ! j))) = str_in q (lower (h_title (full ! i)))
                     \<longrightarrow> h_mtime (full ! j) \<le> h_mtime (full ! i)))
            \<and> (\<forall>k. filter (\<lambda>x. relevance_key lower q x = k) full
                      = filter (\<lambda>x. relevance_key lower q x = k) (search_results lower fs sf vp q)))
       \<and> int (length res) \<le> limit
       \<and> (\<forall>i j. i < length res \<and> j < length res
              \<and> str_in q (lower (h_title (res ! i))) \<and> \<not> str_in q (lower (h_title (res ! j)))
              \<longrightarrow> i < j)"
proof -
  let ?all = "search_results lower fs sf vp q"
  let ?full = "sort_key (relevance_key lower q) ?all"
  have eq: "res = take (nat limit) ?full"
    using assms(1) by (simp add: res_def q_def search_notes_unfold)
  have ms: "mset ?full = mset ?all"
    by simp
  have ord: "\<forall>i j. i < j \<and> j < length ?full \<longrightarrow>
                  (str_in q (lower (h_title (?full ! j))) \<longrightarrow> str_in q (lower (h_title (?full ! i))))
                \<and> (str_in q (lower (h_title (?full ! j))) = str_in q (lower (h_title (?full ! i)))
                     \<longrightarrow> h_mtime (?full ! j) \<le> h_mtime (?full ! i))"
  proof (intro allI impI)
    fix i j
    assume "i < j \<and> j < length ?full"
    then have "i < j" and "j < length ?all" by simp_all
    then show "(str_in q (lower (h_title (?full ! j))) \<longrightarrow> str_in q (lower (h_title (?full ! i))))
                \<and> (str_in q (lower (h_title (?full ! j))) = str_in q (lower (h_title (?full ! i)))
                     \<longrightarrow> h_mtime (?full ! j) \<le> h_mtime (?full ! i))"
      by (rule sort_key_relevance_order)
  qed
  have stab: "\<forall>k. filter (\<lambda>x. relevance_key lower q x = k) ?full
                      = filter (\<lambda>x. relevance_key lower q x = k) ?all"
    by (simp add: sort_key_stable)
  have len: "int (length res) \<le> limit"
    using assms(1) unfolding eq by simp
  have prec: "\<forall>i j. i < length res \<and> j < length res
              \<and> str_in q (lower (h_title (res ! i))) \<and> \<not> str_in q (lower (h_title (res ! j)))
              \<longrightarrow> i < j"
  proof (intro allI impI)
    fix i j
    assume h: "i < length res \<and> j < length res
              \<and> str_in q (lower (h_title (res ! i))) \<and> \<not> str_in q (lower (h_title (res ! j)))"
    then have ri: "res ! i = ?full ! i" and rj: "res ! j = ?full ! j"
      and li: "i < length ?full" and lj: "j < length ?full"
      unfolding eq by simp_all
    have "i \<noteq> j" using h by auto
    moreover have "\<not> j < i"
    proof
      assume "j < i"
      then have "str_in q (lower (h_title (?full ! i))) \<longrightarrow> str_in q (lower (h_title (?full ! j)))"
        using ord li by blast
      then show False using h ri rj by simp
    qed
    ultimately show "i < j" by arith
  qed
  have "\<exists>full. res = take (nat limit) full
            \<and> mset full = mset ?all
            \<and> (\<forall>i j. i < j \<and> j < length full \<longrightarrow>
                  (str_in q (lower (h_title (full ! j))) \<longrightarrow> str_in q (lower (h_title (full ! i))))
                \<and> (str_in q (lower (h_title (full ! j))) = str_in q (lower (h_title (full ! i)))
                     \<longrightarrow> h_mtime (full ! j) \<le> h_mtime (full ! i)))
            \<and> (\<forall>k. filter (\<lambda>x. relevance_key lower q x = k) full
                      = filter (\<lambda>x. relevance_key lower q x = k) ?all)"
    using eq ms ord stab by (intro exI [of _ ?full] conjI)
  then show ?thesis
    using search_results_qualifying [of lower fs sf vp q] len prec by (intro conjI)
qed

theorem search_notes_ranked_then_truncated_witness:
  "(0::int) \<le> 10
   \<and> map (\<lambda>h. (h_file h, h_mtime h))
       (search_notes ascii_lower example_vault example_strftime ''/v'' ''hello'' 10)
     = [(''hello.md'', 7), (''b.md'', 9), (''a.md'', 5)]
   \<and> int (length (search_notes ascii_lower example_vault example_strftime ''/v'' ''hello'' 10)) \<le> 10"
proof -
  have a: "(0::int) \<le> 10" by simp
  have b: "map (\<lambda>h. (h_file h, h_mtime h))
       (search_notes ascii_lower example_vault example_strftime ''/v'' ''hello'' 10)
     = [(''hello.md'', 7), (''b.md'', 9), (''a.md'', 5)]"
    by code_simp
  have c: "int (length (search_notes ascii_lower example_vault example_strftime ''/v'' ''hello'' 10)) \<le> 10"
    using search_notes_ranked_then_truncated [OF a, of ascii_lower example_vault example_strftime "''/v''" "''hello''"]
    by (elim conjE)
  show ?thesis
    using a b c by (intro conjI)
qed

text \<open>
  The claim as it is written, for every limit, fails at a negative one: \<^verbatim>\<open>results[:-1]\<close>
  is the list without its last element. Of the three qualifying notes of the example the
  call with the limit \<open>-1\<close> returns two, more than the limit.
\<close>

theorem search_notes_negative_limit_counterexample:
  "map h_file (search_notes ascii_lower example_vault example_strftime ''/v'' ''hello'' 10)
     = [''hello.md'', ''b.md'', ''a.md'']
   \<and> map h_file (search_notes ascii_lower example_vault example_strftime ''/v'' ''hello'' (- 1))
     = [''hello.md'', ''b.md'']
   \<and> \<not> int (length (search_notes ascii_lower example_vault example_strftime ''/v'' ''hello'' (- 1)))
         \<le> - 1"
  by code_simp

section \<open>A new note never replaces a file\<close>

lemma probe_not_exists: "\<not> os_path_exists st (probe st vp fn full_path counter)"
  by (induction st vp fn full_path counter rule: probe.induct) (subst probe.simps, simp)

lemma open_write_new:
  assumes "\<not> os_path_exists st p" and "open_write st p text = Inr st'"
  shows "st' = st\<lparr>st_files := (path_components p, text) # st_files st\<rparr>"
  using assms
  by (auto simp: open_write_def os_path_exists_def split: if_splits option.splits)

lemma open_write_nonempty: "open_write st p text = Inr st' \<Longrightarrow> p \<noteq> []"
  by (auto simp: open_write_def)

lemma not_exists_key:
  "p \<noteq> [] \<Longrightarrow> \<not> os_path_exists st p \<Longrightarrow> path_components p \<notin> fst ` set (st_files st)"
  by (simp add: os_path_exists_def os_path_isfile_def)

lemma probe_result:
  "(\<not> os_path_exists st full_path \<and> probe st vp fn full_path counter = full_path)
   \<or> (os_path_exists st full_path
      \<and> (\<exists>k\<ge>counter. probe st vp fn full_path counter = numbered vp fn k
            \<and> (\<forall>j. counter \<le> j \<and> j < k \<longrightarrow> os_path_exists st (numbered vp fn j))))"
proof (induction st vp fn full_path counter rule: probe.induct)
  case (1 st vp fn full_path counter)
  show ?case
  proof (cases "os_path_exists st full_path")
    case False
    then show ?thesis by (subst probe.simps) simp
  next
    case True
    then have p: "probe st vp fn full_path counter
        = probe st vp fn (numbered vp fn counter) (counter + 1)"
      by (subst probe.simps) simp
    from "1.IH" [OF True]
    consider (stop) "\<not> os_path_exists st (numbered vp fn counter)"
        "probe st vp fn (numbered vp fn counter) (counter + 1) = numbered vp fn counter"
      | (go) k where "os_path_exists st (numbered vp fn counter)" "counter + 1 \<le> k"
        "probe st vp fn (numbered vp fn counter) (counter + 1) = numbered vp fn k"
        "\<forall>j. counter + 1 \<le> j \<and> j < k \<longrightarrow> os_path_exists st (numbered vp fn j)"
      by blast
    then show ?thesis
    proof cases
      case stop
      then have "counter \<le> counter \<and> probe st vp fn full_path counter = numbered vp fn counter
          \<and> (\<forall>j. counter \<le> j \<and> j < counter \<longrightarrow> os_path_exists st (numbered vp fn j))"
        using p by auto
      then show ?thesis using True by blast
    next
      case go
      have "\<forall>j. counter \<le> j \<and> j < k \<longrightarrow> os_path_exists st (numbered vp fn j)"
      proof (intro allI impI)
        fix j assume "counter \<le> j \<and> j < k"
        then have "j = counter \<or> (counter + 1 \<le> j \<and> j < k)" by arith
        then show "os_path_exists st (numbered vp fn j)"
          using go(1) go(4) by blast
      qed
      moreover have "counter \<le> k" using go(2) by simp
      ultimately show ?thesis
        using True p go(3) by auto
    qed
  qed
qed

text \<open>
  Claim C9. \<^verbatim>\<open>create_new_note\<close> returns for every store, vault path and title (the loop
  over the names ends). Every file of the store has the same content after the call as
  before it. The path that the call wrote to did not exist before the call: it is the
  sanitized title with \<^verbatim>\<open>.md\<close>, or, when that exists, the first of the names with a
  counter, from 1 on, that does not exist.
\<close>

theorem create_new_note_keeps_existing_files:
  assumes "create_new_note strftime st vault_path title = (r, st')"
  shows "(\<forall>k c. map_of (st_files st) k = Some c \<longrightarrow> map_of (st_files st') k = Some c)
       \<and> st_dirs st' = st_dirs st
       \<and> (\<forall>full_path rel_path. r = Some (full_path, rel_path) \<longrightarrow>
            \<not> os_path_exists st full_path
            \<and> map_of (st_files st') (path_components full_path) = Some (new_note_text strftime title)
            \<and> (full_path = path_join vault_path (sanitize title @ ''.md'')
               \<or> (os_path_exists st (path_join vault_path (sanitize title @ ''.md''))
                  \<and> (\<exists>k\<ge>1. full_path = numbered vault_path (sanitize title) k
                        \<and> (\<forall>j. 1 \<le> j \<and> j < k \<longrightarrow>
                              os_path_exists st (numbered vault_path (sanitize title) j))))))"
proof -
  let ?first = "path_join vault_path (sanitize title @ ''.md'')"
  let ?fp = "probe st vault_path (sanitize title) ?first 1"
  have ne: "\<not> os_path_exists st ?fp"
    by (rule probe_not_exists)
  have pr: "?fp = ?first
      \<or> (os_path_exists st ?first
         \<and> (\<exists>k\<ge>1. ?fp = numbered vault_path (sanitize title) k
               \<and> (\<forall>j. 1 \<le> j \<and> j < k \<longrightarrow>
                     os_path_exists st (numbered vault_path (sanitize title) j))))"
    using probe_result [of st ?first vault_path "sanitize title" 1] by blast
  show ?thesis
  proof (cases "open_write st ?fp (new_note_text strftime title)")
    case (Inl e)
    then have "r = None" and "st' = st"
      using assms by (simp_all add: create_new_note_def Let_def)
    then show ?thesis by simp
  next
    case (Inr st2)
    then have r: "r = Some (?fp, relpath ?fp vault_path)" and s: "st' = st2"
      using assms by (simp_all add: create_new_note_def Let_def)
    have st2: "st2 = st\<lparr>st_files := (path_components ?fp, new_note_text strftime title) # st_files st\<rparr>"
      by (rule open_write_new [OF ne Inr])
    have "?fp \<noteq> []"
      by (rule open_write_nonempty [OF Inr])
    then have nk: "path_components ?fp \<notin> fst ` set (st_files st)"
      using ne by (rule not_exists_key)
    have keep: "\<forall>k c. map_of (st_files st) k = Some c \<longrightarrow> map_of (st_files st') k = Some c"
    proof (intro allI impI)
      fix k c
      assume m: "map_of (st_files st) k = Some c"
      then have "k \<in> fst ` set (st_files st)"
        by (metis map_of_eq_None_iff option.distinct(1))
      with nk have "k \<noteq> path_components ?fp" by blast
      with m show "map_of (st_files st') k = Some c"
        by (simp add: s st2)
    qed
    have dirs: "st_dirs st' = st_dirs st"
      by (simp add: s st2)
    have written: "map_of (st_files st') (path_components ?fp) = Some (new_note_text strftime title)"
      by (simp add: s st2)
    have "\<forall>full_path rel_path. r = Some (full_path, rel_path) \<longrightarrow>
            \<not> os_path_exists st full_path
            \<and> map_of (st_files st') (path_components full_path) = Some (new_note_text strftime title)
            \<and> (full_path = ?first
               \<or> (os_path_exists st ?first
                  \<and> (\<exists>k\<ge>1. full_path = numbered vault_path (sanitize title) k
                        \<and> (\<forall>j. 1 \<le> j \<and> j < k \<longrightarrow>
                              os_path_exists st (numbered vault_path (sanitize title) j)))))"
      using ne written pr unfolding r by blast
    then show ?thesis
      using keep dirs by (intro conjI)
  qed
qed

theorem create_new_note_keeps_existing_files_witness:
  "create_new_note example_now notes_store ''/v'' ''x''
     = (Some (''/v/x 2.md'', ''x 2.md''), snd (create_new_note example_now notes_store ''/v'' ''x''))
   \<and> map_of (st_files notes_store) [''v'', ''x.md''] = Some ''old''
   \<and> map_of (st_files (snd (create_new_note example_now notes_store ''/v'' ''x''))) [''v'', ''x.md'']
       = Some ''old''
   \<and> \<not> os_path_exists notes_store ''/v/x 2.md''"
proof -
  have a: "create_new_note example_now notes_store ''/v'' ''x''
     = (Some (''/v/x 2.md'', ''x 2.md''), snd (create_new_note example_now notes_store ''/v'' ''x''))"
    by code_simp
  have b: "map_of (st_files notes_store) [''v'', ''x.md''] = Some ''old''"
    by code_simp
  note t = create_new_note_keeps_existing_files [OF a]
  have c: "map_of (st_files (snd (create_new_note example_now notes_store ''/v'' ''x''))) [''v'', ''x.md'']
       = Some ''old''"
    using t [THEN conjunct1, rule_format, OF b] .
  have d: "\<not> os_path_exists notes_store ''/v/x 2.md''"
    using t [THEN conjunct2, THEN conjunct2, rule_format, of "''/v/x 2.md''" "''x 2.md''"] by simp
  show ?thesis
    using a b c d by (intro conjI)
qed

section \<open>The daily note is created once\<close>

lemma mkdirs_keys_ok:
  "mkdirs_keys st qs = (None, st') \<Longrightarrow>
   set qs \<subseteq> set (st_dirs st') \<and> st_files st' = st_files st
   \<and> st_readonly st' = st_readonly st \<and> set (st_dirs st) \<subseteq> set (st_dirs st')"
proof (induction qs arbitrary: st)
  case Nil
  then show ?case by simp
next
  case (Cons q qs)
  show ?case
  proof (cases "q \<in> set (st_dirs st)")
    case True
    with Cons.prems have "mkdirs_keys st qs = (None, st')" by simp
    from Cons.IH [OF this] True show ?thesis by auto
  next
    case False
    with Cons.prems have "mkdirs_keys (st\<lparr>st_dirs := q # st_dirs st\<rparr>) qs = (None, st')"
      by (simp split: if_splits)
    from Cons.IH [OF this] show ?thesis by auto
  qed
qed

lemma mkdirs_keys_noop: "set qs \<subseteq> set (st_dirs st) \<Longrightarrow> mkdirs_keys st qs = (None, st)"
  by (induction qs) auto

lemma get_daily_notes_config_files:
  "get_daily_notes_config json_load st vault_path =
     (case map_of (st_files st)
             (path_components (path_join (path_join vault_path ''.obsidian'') ''daily-notes.json'')) of
        None \<Rightarrow> None
      | Some text \<Rightarrow> json_load text)"
proof -
  let ?cp = "path_join (path_join vault_path ''.obsidian'') ''daily-notes.json''"
  have ne: "?cp \<noteq> []"
    by (simp add: path_join_def startswith_def)
  show ?thesis
  proof (cases "map_of (st_files st) (path_components ?cp)")
    case None
    then show ?thesis
      using ne by (simp add: get_daily_notes_config_def open_read_def Let_def)
  next
    case (Some body)
    then have "path_components ?cp \<in> fst ` set (st_files st)"
      by (metis map_of_eq_None_iff option.distinct(1))
    then have "os_path_exists st ?cp"
      using ne by (simp add: os_path_exists_def os_path_isfile_def)
    then show ?thesis
      using ne Some by (simp add: get_daily_notes_config_def open_read_def Let_def)
  qed
qed

lemma path_join_suffix: "\<exists>x. path_join a b = x @ b"
proof (cases "startswith b ''/''")
  case True
  then have "path_join a b = [] @ b" by (simp add: path_join_def)
  then show ?thesis by blast
next
  case False
  then have "path_join a b = a @ b \<or> path_join a b = (a @ ''/'') @ b"
    by (simp add: path_join_def)
  then show ?thesis by blast
qed

lemma note_key_not_config_key:
  "path_components (path_join daily_path (title @ ''.md''))
     \<noteq> path_components (path_join (path_join vault_path ''.obsidian'') ''daily-notes.json'')"
proof
  assume eq: "path_components (path_join daily_path (title @ ''.md''))
     = path_components (path_join (path_join vault_path ''.obsidian'') ''daily-notes.json'')"
  obtain x where x: "path_join daily_path (title @ ''.md'') = (x @ title) @ ''.md''"
    using path_join_suffix [of daily_path "title @ ''.md''"] by auto
  obtain y where y: "path_join (path_join vault_path ''.obsidian'') ''daily-notes.json''
      = y @ ''daily-notes.json''"
    using path_join_suffix by blast
  have a: "last (path_components ((x @ title) @ ''.md'')) = last (split_on (CHR ''/'') (x @ title)) @ ''.md''"
    using path_components_append_last [of "''.md''" "x @ title"] by simp
  have b: "last (path_components (y @ ''daily-notes.json''))
      = last (split_on (CHR ''/'') y) @ ''daily-notes.json''"
    using path_components_append_last [of "''daily-notes.json''" y] by simp
  from eq have "last (split_on (CHR ''/'') (x @ title)) @ ''.md''
      = last (split_on (CHR ''/'') y) @ ''daily-notes.json''"
    unfolding x y using a b by simp
  then have "last (last (split_on (CHR ''/'') (x @ title)) @ ''.md'')
      = last (last (split_on (CHR ''/'') y) @ ''daily-notes.json'')"
    by simp
  then show False by simp
qed

lemma create_daily_note_with_template_existing:
  "os_path_exists st (path_join daily_path (title @ ''.md'')) \<Longrightarrow>
   create_daily_note_with_template strftime st vault_path daily_path title daily_config =
     (Some (path_join daily_path (title @ ''.md''),
            relpath (path_join daily_path (title @ ''.md'')) vault_path), st)"
  by (simp add: create_daily_note_with_template_def Let_def)

lemma create_daily_note_with_template_result:
  assumes "create_daily_note_with_template strftime st vault_path daily_path title daily_config
             = (Some r, st')"
  defines "fp \<equiv> path_join daily_path (title @ ''.md'')"
  shows "r = (fp, relpath fp vault_path) \<and> os_path_exists st' fp \<and> st_dirs st' = st_dirs st
       \<and> (\<forall>k. k \<noteq> path_components fp \<longrightarrow> map_of (st_files st') k = map_of (st_files st) k)"
proof (cases "os_path_exists st fp")
  case True
  then show ?thesis
    using assms(1) by (simp add: fp_def create_daily_note_with_template_existing)
next
  case False
  from assms(1) False obtain content where w: "open_write st fp content = Inr st'"
    and r: "r = (fp, relpath fp vault_path)"
    by (auto simp: create_daily_note_with_template_def Let_def fp_def
        split: sum.splits if_splits)
  have st': "st' = st\<lparr>st_files := (path_components fp, content) # st_files st\<rparr>"
    by (rule open_write_new [OF False w])
  have "fp \<noteq> []"
    by (rule open_write_nonempty [OF w])
  then have "os_path_exists st' fp"
    by (simp add: st' os_path_exists_def os_path_isfile_def)
  then show ?thesis
    using r by (simp add: st')
qed


text \<open>
  Claim C4. When the target file exists, \<^verbatim>\<open>create_daily_note_with_template\<close> returns
  its path and its path relative to the vault and leaves the store as it is. So a second
  call of \<^verbatim>\<open>create_daily_note\<close> for the same vault and title, after a call that returned
  a path, returns the same paths and changes nothing: the content of the note, and of
  every other file, is the same after it.
\<close>

theorem create_daily_note_idempotent:
  "(os_path_exists st (path_join daily_path (title @ ''.md'')) \<longrightarrow>
      create_daily_note_with_template strftime st vault_path daily_path title daily_config =
        (Some (path_join daily_path (title @ ''.md''),
               relpath (path_join daily_path (title @ ''.md'')) vault_path), st))
   \<and> (\<forall>r st1. create_daily_note json_load strftime st vault_path t = (Returned (Some r), st1) \<longrightarrow>
          create_daily_note json_load strftime st1 vault_path t = (Returned (Some r), st1))"
proof (intro conjI allI impI)
  assume "os_path_exists st (path_join daily_path (title @ ''.md''))"
  then show "create_daily_note_with_template strftime st vault_path daily_path title daily_config =
        (Some (path_join daily_path (title @ ''.md''),
               relpath (path_join daily_path (title @ ''.md'')) vault_path), st)"
    by (rule create_daily_note_with_template_existing)
next
  fix r st1
  assume A: "create_daily_note json_load strftime st vault_path t = (Returned (Some r), st1)"
  define cfg where "cfg = get_daily_notes_config json_load st vault_path"
  define ti where "ti = daily_title strftime cfg t"
  define dp where "dp = path_join vault_path (daily_folder cfg)"
  define fp where "fp = path_join dp (ti @ ''.md'')"
  from A obtain sta where mk: "makedirs st dp = (None, sta)"
    and wt: "create_daily_note_with_template strftime sta vault_path dp ti cfg = (Some r, st1)"
    by (auto simp: create_daily_note_def Let_def cfg_def ti_def dp_def
        split: prod.splits option.splits)
  from mk have dpne: "dp \<noteq> []"
    and mk': "mkdirs_keys st (key_prefixes (path_components dp)) = (None, sta)"
    by (auto simp: makedirs_def split: if_splits)
  from mkdirs_keys_ok [OF mk'] have pre: "set (key_prefixes (path_components dp)) \<subseteq> set (st_dirs sta)"
    and fa: "st_files sta = st_files st"
    by simp_all
  from create_daily_note_with_template_result [OF wt]
  have r: "r = (fp, relpath fp vault_path)" and ex: "os_path_exists st1 fp"
    and d1: "st_dirs st1 = st_dirs sta"
    and f1: "\<forall>k. k \<noteq> path_components fp \<longrightarrow> map_of (st_files st1) k = map_of (st_files sta) k"
    by (simp_all add: fp_def)
  have "path_components (path_join (path_join vault_path ''.obsidian'') ''daily-notes.json'') \<noteq> path_components fp"
    unfolding fp_def using note_key_not_config_key [of dp ti vault_path] by simp
  then have cfg1: "get_daily_notes_config json_load st1 vault_path = cfg"
    using f1 fa by (simp add: cfg_def get_daily_notes_config_files)
  have mk1: "makedirs st1 dp = (None, st1)"
    using dpne pre d1 by (simp add: makedirs_def mkdirs_keys_noop)
  have "create_daily_note_with_template strftime st1 vault_path dp ti cfg
      = (Some (fp, relpath fp vault_path), st1)"
    using ex unfolding fp_def by (rule create_daily_note_with_template_existing)
  then show "create_daily_note json_load strftime st1 vault_path t = (Returned (Some r), st1)"
    using mk1 r by (simp add: create_daily_note_def Let_def cfg1 ti_def [symmetric] dp_def [symmetric])
qed

theorem create_daily_note_idempotent_witness:
  "create_daily_note example_json_load example_now empty_vault_store ''/v'' None
     = (Returned (Some (''/v/Daily/2024-01-01.md'', ''Daily/2024-01-01.md'')),
        snd (create_daily_note example_json_load example_now empty_vault_store ''/v'' None))
   \<and> create_daily_note example_json_load example_now
        (snd (create_daily_note example_json_load example_now empty_vault_store ''/v'' None))
        ''/v'' None
     = (Returned (Some (''/v/Daily/2024-01-01.md'', ''Daily/2024-01-01.md'')),
        snd (create_daily_note example_json_load example_now empty_vault_store ''/v'' None))"
proof -
  have a: "create_daily_note example_json_load example_now empty_vault_store ''/v'' None
     = (Returned (Some (''/v/Daily/2024-01-01.md'', ''Daily/2024-01-01.md'')),
        snd (create_daily_note example_json_load example_now empty_vault_store ''/v'' None))"
    by code_simp
  show ?thesis
    using a create_daily_note_idempotent [THEN conjunct2, rule_format, OF a]
    by (intro conjI)
qed

section \<open>A failure of the folder creation is raised\<close>

text \<open>
  Claim C6, at the input that decides it. In the vault \<^verbatim>\<open>/v\<close> nothing can be created.
  \<^verbatim>\<open>os.makedirs\<close> raises \<^verbatim>\<open>PermissionError\<close> for the folder \<^verbatim>\<open>/v/Daily\<close>, and since the
  call stands outside the \<^verbatim>\<open>try\<close> statement of \<^verbatim>\<open>create_daily_note_with_template\<close>,
  \<^verbatim>\<open>create_daily_note\<close> lets the exception through instead of returning
  \<^verbatim>\<open>(None, None)\<close>.
\<close>

theorem create_daily_note_raises_on_folder_failure:
  "create_daily_note example_json_load example_now readonly_vault_store ''/v'' None
     = (Raised PermissionError, readonly_vault_store)"
  by code_simp

end
